theory Spec2Isabelle
  imports Main
begin

section \<open>Shared data model\<close>

text \<open>
  A coordinate is a pair of Python integers. Time steps are produced by
  \<^verbatim>\<open>enumerate\<close> and \<^verbatim>\<open>range\<close>, but queries take any Python integer, so the time
  component of a reservation key is an \<^typ>\<open>int\<close>.
\<close>

type_synonym coord = "int \<times> int"
type_synonym path = "coord list"

text \<open>The exceptions the modelled code can raise.\<close>

datatype error =
    ValueError
  | KeyError
  | IndexError
  | TypeError
  | AttributeError
  | ZeroDivisionError
  | OverflowError
  | NodeNotFound
  | NetworkXNoPath
  | NetworkXError
  | NetworkXUnfeasible
  | NetworkXUnbounded

text \<open>
  Values read from and written to JSON and YAML files, as the parsers hand them over.
  An object keeps its keys in the order of the file, as a Python dictionary does.
  Floating point numbers do not occur in the map format and are left out.
\<close>

datatype json =
    JNull
  | JBool bool
  | JInt int
  | JStr string
  | JList "json list"
  | JObj "(string \<times> json) list"

text \<open>
  The source's type aliases: \<^verbatim>\<open>Line = Tuple[Tuple[int, int], Tuple[int, int]]\<close> and
  \<^verbatim>\<open>Rect = Tuple[int, int, int, int]\<close>.
\<close>

type_synonym line = "coord \<times> coord"
type_synonym rect = "int \<times> int \<times> int \<times> int"

text \<open>
  The metadata dictionary of one geometry item, with its four keys \<^verbatim>\<open>id\<close>,
  \<^verbatim>\<open>layer\<close>, \<^verbatim>\<open>attributes\<close> and \<^verbatim>\<open>style\<close>. The values are whatever the file holds.
\<close>

record meta =
  m_id :: json
  m_layer :: json
  m_attributes :: json
  m_style :: json

text \<open>An agent entry: the keys \<^verbatim>\<open>start\<close> and \<^verbatim>\<open>goal\<close>, each of which may be absent.\<close>

record agent_entry =
  entry_start :: "coord option"
  entry_goal :: "coord option"

text \<open>The dictionary that \<^verbatim>\<open>load_map\<close> returns and the other operations of map\_io.py read.\<close>

record map_data =
  layers :: json
  lines :: "line list"
  line_meta :: "meta list"
  nodes :: "coord list"
  node_meta :: "meta list"
  obstacles :: "rect list"
  obstacle_meta :: "meta list"
  agents :: "(string \<times> agent_entry) list"

text \<open>
  A dictionary that the code iterates over is the list of its items in insertion order,
  with no key twice. Assigning to a key that is present replaces the value in place;
  a new key goes to the end.
\<close>

fun dict_set :: "('k \<times> 'v) list \<Rightarrow> 'k \<Rightarrow> 'v \<Rightarrow> ('k \<times> 'v) list" where
  "dict_set [] k v = [(k, v)]"
| "dict_set ((k', v') # kvs) k v =
     (if k' = k then (k, v) # kvs else (k', v') # dict_set kvs k v)"

section \<open>Reservation table (reservation\_table.py)\<close>

text \<open>
  \<^verbatim>\<open>self._table\<close> is a dictionary from \<^verbatim>\<open>(node, t)\<close> to the agent name. It is only
  assigned to and tested for membership, so it is a map.
\<close>

type_synonym table = "(coord \<times> int) \<rightharpoonup> string"

definition new_table :: table where
  "new_table = Map.empty"

text \<open>\<^verbatim>\<open>for t, node in enumerate(path): self._table[(node, t)] = agent\<close>\<close>

definition reserve :: "table \<Rightarrow> string \<Rightarrow> path \<Rightarrow> table" where
  "reserve tbl agent p =
     fold (\<lambda>(t, node) tb. tb((node, int t) \<mapsto> agent)) (enumerate 0 p) tbl"

definition is_reserved :: "table \<Rightarrow> coord \<Rightarrow> int \<Rightarrow> bool" where
  "is_reserved tbl node time = ((node, time) \<in> dom tbl)"

text \<open>
  The slice \<^verbatim>\<open>xs[:n]\<close> of Python: the first \<open>n\<close> elements for \<open>n \<ge> 0\<close>, all but the
  last \<open>-n\<close> elements for \<open>n < 0\<close>.
\<close>

definition slice_to :: "'a list \<Rightarrow> int \<Rightarrow> 'a list" where
  "slice_to xs n = (if 0 \<le> n then take (nat n) xs else take (length xs - nat (- n)) xs)"

text \<open>\<^verbatim>\<open>for t, node in enumerate(path[:steps]): self._table[(node, t)] = agent\<close>\<close>

definition lock_ahead :: "table \<Rightarrow> string \<Rightarrow> path \<Rightarrow> int \<Rightarrow> table" where
  "lock_ahead tbl agent p steps =
     fold (\<lambda>(t, node) tb. tb((node, int t) \<mapsto> agent)) (enumerate 0 (slice_to p steps)) tbl"

section \<open>Occupancy grid export (map\_io.py)\<close>

text \<open>
  \<^verbatim>\<open>int(a / b)\<close> on Python integers. The true division \<^verbatim>\<open>a / b\<close> raises
  \<^verbatim>\<open>ZeroDivisionError\<close> for \<open>b = 0\<close>; otherwise it returns the double-precision float
  nearest to the exact quotient, ties going to the even significand, and raises
  \<^verbatim>\<open>OverflowError\<close> when that float would not be finite. \<^verbatim>\<open>int\<close> then truncates the
  float toward zero. The float is a 53-bit significand times a power of two, so the
  model works on integers throughout.
\<close>

text \<open>\<^verbatim>\<open>int.bit_length\<close>: the number of bits of the magnitude.\<close>

function bit_length :: "int \<Rightarrow> nat" where
  "bit_length n = (if n = 0 then 0 else Suc (bit_length (\<bar>n\<bar> div 2)))"
  by pat_completeness auto
termination by (relation "measure (\<lambda>n. nat \<bar>n\<bar>)") auto

declare bit_length.simps [simp del]

text \<open>The integer nearest to \<open>n / d\<close> for \<open>0 \<le> n\<close> and \<open>0 < d\<close>, ties to the even one.\<close>

definition round_half_even :: "int \<Rightarrow> int \<Rightarrow> int" where
  "round_half_even n d =
     (let q = n div d; r = n mod d
      in if 2 * r < d then q else if d < 2 * r then q + 1 else if even q then q else q + 1)"

text \<open>
  The truncated float quotient of \<open>0 \<le> a\<close> by \<open>0 < b\<close>. A quotient below 1 truncates to 0
  unless it rounds to the float \<open>1.0\<close>, which it does from \<open>1 - 2\<^sup>-\<^sup>5\<^sup>4\<close> on. Otherwise the
  quotient lies in \<open>[2\<^sup>e, 2\<^sup>e\<^sup>+\<^sup>1)\<close>, where floats are \<open>2\<^sup>e\<^sup>-\<^sup>5\<^sup>2\<close> apart: it is rounded to a
  multiple of that, which is then truncated (\<open>e \<le> 52\<close>) or already an integer. A rounded
  quotient of \<open>2\<^sup>1\<^sup>0\<^sup>2\<^sup>4\<close> or more is not a finite float.
\<close>

definition truediv_trunc :: "int \<Rightarrow> int \<Rightarrow> error + int" where
  "truediv_trunc a b =
     (if a < b then Inr (if (2 ^ 54 - 1) * b \<le> 2 ^ 54 * a then 1 else 0)
      else
        let e = bit_length (a div b) - 1
        in if e \<le> 52 then Inr (round_half_even (a * 2 ^ (52 - e)) b div 2 ^ (52 - e))
           else
             let m = round_half_even a (b * 2 ^ (e - 52))
             in if 2 ^ 1024 \<le> m * 2 ^ (e - 52) then Inl OverflowError
                else Inr (m * 2 ^ (e - 52)))"

definition int_truediv :: "int \<Rightarrow> int \<Rightarrow> error + int" where
  "int_truediv a b =
     (if b = 0 then Inl ZeroDivisionError
      else case truediv_trunc \<bar>a\<bar> \<bar>b\<bar> of
             Inl e \<Rightarrow> Inl e
           | Inr n \<Rightarrow> Inr (sgn a * sgn b * n))"

text \<open>The three loops that compute \<^verbatim>\<open>max_x\<close> and \<^verbatim>\<open>max_y\<close>, both starting at 0.\<close>

definition max_coords :: "map_data \<Rightarrow> int \<times> int" where
  "max_coords m =
     (let acc = fold (\<lambda>((x1, y1), (x2, y2)) (mx, my). (max (max mx x1) x2, max (max my y1) y2))
                  (lines m) (0, 0);
          acc = fold (\<lambda>(x, y) (mx, my). (max mx x, max my y)) (nodes m) acc
      in fold (\<lambda>(x1, y1, x2, y2) (mx, my). (max (max mx x1) x2, max (max my y1) y2))
           (obstacles m) acc)"

text \<open>
  \<^verbatim>\<open>if 0 <= gy < height and 0 <= gx < width: grid[gy][gx] = 1\<close>
\<close>

definition mark_cell :: "int \<Rightarrow> int \<Rightarrow> int \<Rightarrow> int \<Rightarrow> int list list \<Rightarrow> int list list" where
  "mark_cell width height gx gy grid =
     (if 0 \<le> gy \<and> gy < height \<and> 0 \<le> gx \<and> gx < width
      then grid[nat gy := (grid ! nat gy)[nat gx := 1]] else grid)"

text \<open>
  The body of the loop over the obstacles: four divisions, each of which may raise, and
  two nested \<^verbatim>\<open>range\<close> loops.
\<close>

fun mark_rect :: "int \<Rightarrow> int \<Rightarrow> int \<Rightarrow> rect \<Rightarrow> int list list \<Rightarrow> error + int list list" where
  "mark_rect width height resolution (x1, y1, x2, y2) grid =
     (case int_truediv x1 resolution of Inl e \<Rightarrow> Inl e | Inr x_start \<Rightarrow>
      case int_truediv y1 resolution of Inl e \<Rightarrow> Inl e | Inr y_start \<Rightarrow>
      case int_truediv x2 resolution of Inl e \<Rightarrow> Inl e | Inr x_end \<Rightarrow>
      case int_truediv y2 resolution of Inl e \<Rightarrow> Inl e | Inr y_end \<Rightarrow>
        Inr (fold (\<lambda>gx g. fold (\<lambda>gy g'. mark_cell width height gx gy g') [y_start..y_end] g)
               [x_start..x_end] grid))"

text \<open>The loop over the obstacles; an exception ends it.\<close>

fun mark_rects :: "int \<Rightarrow> int \<Rightarrow> int \<Rightarrow> rect list \<Rightarrow> int list list \<Rightarrow> error + int list list" where
  "mark_rects width height resolution [] grid = Inr grid"
| "mark_rects width height resolution (r # rs) grid =
     (case mark_rect width height resolution r grid of
        Inl e \<Rightarrow> Inl e
      | Inr grid' \<Rightarrow> mark_rects width height resolution rs grid')"

definition export_occupancy_grid :: "map_data \<Rightarrow> int \<Rightarrow> error + int list list" where
  "export_occupancy_grid m resolution =
     (let (max_x, max_y) = max_coords m
      in case int_truediv max_x resolution of Inl e \<Rightarrow> Inl e | Inr w \<Rightarrow>
         case int_truediv max_y resolution of Inl e \<Rightarrow> Inl e | Inr h \<Rightarrow>
           let width = w + 1;
               height = h + 1;
               grid = replicate (nat height) (replicate (nat width) 0)
           in mark_rects width height resolution (obstacles m) grid)"

text \<open>
  What the grid is compared with: the cells an obstacle covers in the words of the
  specification, which divide with \<open>floor\<close> (\<^term>\<open>(div)\<close> on \<^typ>\<open>int\<close> rounds down).
\<close>

fun spec_covers :: "int \<Rightarrow> rect \<Rightarrow> int \<Rightarrow> int \<Rightarrow> bool" where
  "spec_covers resolution (x1, y1, x2, y2) x y =
     (x1 div resolution \<le> x \<and> x \<le> x2 div resolution \<and>
      y1 div resolution \<le> y \<and> y \<le> y2 div resolution)"

definition spec_occupied :: "int \<Rightarrow> rect list \<Rightarrow> int \<Rightarrow> int \<Rightarrow> bool" where
  "spec_occupied resolution obs x y = list_ex (\<lambda>r. spec_covers resolution r x y) obs"

text \<open>All x and all y coordinates that occur in the lines, nodes and obstacles of a map.\<close>

definition all_xs :: "map_data \<Rightarrow> int list" where
  "all_xs m = concat (map (\<lambda>((x1, y1), (x2, y2)). [x1, x2]) (lines m)) @ map fst (nodes m) @
              concat (map (\<lambda>(x1, y1, x2, y2). [x1, x2]) (obstacles m))"

definition all_ys :: "map_data \<Rightarrow> int list" where
  "all_ys m = concat (map (\<lambda>((x1, y1), (x2, y2)). [y1, y2]) (lines m)) @ map snd (nodes m) @
              concat (map (\<lambda>(x1, y1, x2, y2). [y1, y2]) (obstacles m))"

text \<open>A grid of the given height whose rows all have the given width.\<close>

definition grid_ok :: "int \<Rightarrow> int \<Rightarrow> int list list \<Rightarrow> bool" where
  "grid_ok width height g \<longleftrightarrow> length g = nat height \<and> list_all (\<lambda>r. length r = nat width) g"

text \<open>An obstacle none of whose corner coordinates is negative.\<close>

fun nonneg_rect :: "rect \<Rightarrow> bool" where
  "nonneg_rect (x1, y1, x2, y2) = (0 \<le> x1 \<and> 0 \<le> y1 \<and> 0 \<le> x2 \<and> 0 \<le> y2)"

section \<open>Connectivity graph (graph\_builder.py)\<close>

text \<open>
  Modelled from the spec: the undirected graph class of the graph library, which is not
  part of the repository, as far as this program uses it. The connectivity graph of the
  specification is undirected and weighted, its nodes are distinct coordinates, and a
  later edge on the same unordered pair of endpoints replaces the earlier one. The
  library keeps the nodes in a dictionary in the order in which they were added, and for
  every edge one attribute dictionary that both directions share. Here the nodes are a
  list in insertion order and the adjacency is a map on ordered pairs, which holds the
  \<^verbatim>\<open>weight\<close> attribute of the edge if it is set; both directions of an edge are
  written together.
\<close>

type_synonym edge_data = "int option"

record graph =
  g_nodes :: "coord list"
  g_adj :: "coord \<times> coord \<rightharpoonup> edge_data"

definition empty_graph :: graph where
  "empty_graph = \<lparr>g_nodes = [], g_adj = Map.empty\<rparr>"

text \<open>A node that is already present is left where it is.\<close>

definition add_node :: "coord \<Rightarrow> graph \<Rightarrow> graph" where
  "add_node u g = (if u \<in> set (g_nodes g) then g else g\<lparr>g_nodes := g_nodes g @ [u]\<rparr>)"

text \<open>
  \<^verbatim>\<open>graph.add_edge(u, v, weight=w)\<close>: adds the two nodes if they are missing, \<open>u\<close>
  first, and sets the weight of the edge in both directions, replacing an earlier one.
\<close>

definition add_edge :: "coord \<Rightarrow> coord \<Rightarrow> int \<Rightarrow> graph \<Rightarrow> graph" where
  "add_edge u v w g =
     (let g' = add_node v (add_node u g)
      in g'\<lparr>g_adj := (g_adj g')((u, v) \<mapsto> Some w, (v, u) \<mapsto> Some w)\<rparr>)"

text \<open>
  \<^verbatim>\<open>graph.edges(data=True)\<close>: every edge once, reported from the endpoint that comes
  first in the node order, together with its attributes. A node's neighbours are
  visited here in node order.
\<close>

fun edges_from :: "graph \<Rightarrow> coord list \<Rightarrow> (coord \<times> coord \<times> edge_data) list" where
  "edges_from g [] = []"
| "edges_from g (n # rest) =
     map (\<lambda>nbr. (n, nbr, the (g_adj g (n, nbr))))
       (filter (\<lambda>nbr. g_adj g (n, nbr) \<noteq> None) (n # rest))
     @ edges_from g rest"

definition graph_edges :: "graph \<Rightarrow> (coord \<times> coord \<times> edge_data) list" where
  "graph_edges g = edges_from g (g_nodes g)"

text \<open>\<^verbatim>\<open>weight = abs(x1 - x2) + abs(y1 - y2)\<close>\<close>

fun manhattan :: "coord \<Rightarrow> coord \<Rightarrow> int" where
  "manhattan (x1, y1) (x2, y2) = \<bar>x1 - x2\<bar> + \<bar>y1 - y2\<bar>"

text \<open>The body of the loop over the segments, and the loop.\<close>

fun add_line :: "line \<Rightarrow> graph \<Rightarrow> graph" where
  "add_line (u, v) g = add_edge u v (manhattan u v) g"

definition lines_to_graph :: "line list \<Rightarrow> graph" where
  "lines_to_graph ls = fold add_line ls empty_graph"

text \<open>
  What holds of every graph the library builds: no node is listed twice, edges join
  nodes of the graph, and an edge has the same attributes in both directions.
\<close>

definition graph_ok :: "graph \<Rightarrow> bool" where
  "graph_ok g \<longleftrightarrow>
     distinct (g_nodes g) \<and>
     (\<forall>u v. g_adj g (u, v) \<noteq> None \<longrightarrow> u \<in> set (g_nodes g) \<and> v \<in> set (g_nodes g)) \<and>
     (\<forall>u v. g_adj g (u, v) = g_adj g (v, u))"

text \<open>The two segments \<open>(u, v)\<close> and \<open>(v, u)\<close> lie on the same unordered pair of endpoints.\<close>

definition same_pair :: "line \<Rightarrow> line \<Rightarrow> bool" where
  "same_pair l l' \<longleftrightarrow> l' = l \<or> l' = (snd l, fst l)"

text \<open>The unordered pair of endpoints of a segment and of a reported edge.\<close>

definition line_pair :: "line \<Rightarrow> coord set" where
  "line_pair l = {fst l, snd l}"

definition edge_pair :: "coord \<times> coord \<times> edge_data \<Rightarrow> coord set" where
  "edge_pair e = {fst e, fst (snd e)}"

section \<open>Candidate paths and the time-expanded network (ten\_builder.py)\<close>

subsection \<open>k shortest paths\<close>

text \<open>
  An edge without a \<^verbatim>\<open>weight\<close> attribute counts 1, in the search as in
  \<^verbatim>\<open>data.get("weight", 1)\<close>.
\<close>

definition edge_cost :: "edge_data \<Rightarrow> int" where
  "edge_cost d = (case d of None \<Rightarrow> 1 | Some c \<Rightarrow> c)"

text \<open>The total edge weight of a path, and what a simple path from \<open>s\<close> to \<open>t\<close> is.\<close>

fun path_weight :: "graph \<Rightarrow> path \<Rightarrow> int" where
  "path_weight g (u # v # p) = edge_cost (the (g_adj g (u, v))) + path_weight g (v # p)"
| "path_weight g p = 0"

definition path_pairs :: "path \<Rightarrow> (coord \<times> coord) list" where
  "path_pairs p = zip (butlast p) (tl p)"

definition is_simple_path :: "graph \<Rightarrow> coord \<Rightarrow> coord \<Rightarrow> path \<Rightarrow> bool" where
  "is_simple_path g s t p \<longleftrightarrow>
     p \<noteq> [] \<and> hd p = s \<and> last p = t \<and> distinct p \<and> set p \<subseteq> set (g_nodes g) \<and>
     list_all (\<lambda>e. g_adj g e \<noteq> None) (path_pairs p)"

text \<open>Consecutive coordinates of the path are joined by an edge.\<close>

definition walk_ok :: "graph \<Rightarrow> path \<Rightarrow> bool" where
  "walk_ok g p \<longleftrightarrow> list_all (\<lambda>e. g_adj g e \<noteq> None) (path_pairs p)"

text \<open>
  Modelled from the spec: the ranked simple-path search of the graph library
  (\<^verbatim>\<open>shortest_simple_paths\<close>), which is not part of the repository. In the words of
  the specification it enumerates the distinct simple (loopless) paths from the start to
  the goal in ascending total edge weight; the order among paths of equal weight is left
  to the library and is here the order of a depth-first enumeration. The library call
  returns a generator, and its documentation names two exceptions, raised when the first
  path is requested: \<^verbatim>\<open>NodeNotFound\<close> when the start or the goal is not a node of the
  graph, \<^verbatim>\<open>NetworkXNoPath\<close> when no path joins them.

  \<open>paths_from n g vis u t\<close> lists the simple paths from \<open>u\<close> to \<open>t\<close> that avoid the
  nodes \<open>vis\<close> and have at most \<open>n\<close> edges.
\<close>

fun paths_from :: "nat \<Rightarrow> graph \<Rightarrow> coord list \<Rightarrow> coord \<Rightarrow> coord \<Rightarrow> path list" where
  "paths_from 0 g vis u t = (if u = t then [[u]] else [])"
| "paths_from (Suc n) g vis u t =
     (if u = t then [[u]]
      else concat (map (\<lambda>v. map ((#) u) (paths_from n g (u # vis) v t))
             (filter (\<lambda>v. v \<notin> set (u # vis) \<and> g_adj g (u, v) \<noteq> None) (remdups (g_nodes g)))))"

text \<open>
  All simple paths between two nodes of the graph (a simple path has at most as many
  coordinates as the graph has nodes), and the same in ascending order of weight.
\<close>

definition all_simple_paths :: "graph \<Rightarrow> coord \<Rightarrow> coord \<Rightarrow> path list" where
  "all_simple_paths g s t =
     (if s \<in> set (g_nodes g) \<and> t \<in> set (g_nodes g)
      then paths_from (length (g_nodes g)) g [] s t else [])"

text \<open>
  A generator that ends is modelled by what running it gives: the exception raised when
  its first item is requested, or the list of the items it yields.
\<close>

definition shortest_simple_paths :: "graph \<Rightarrow> coord \<Rightarrow> coord \<Rightarrow> error + path list" where
  "shortest_simple_paths g s t =
     (if s \<notin> set (g_nodes g) \<or> t \<notin> set (g_nodes g) then Inl NodeNotFound
      else
        let ps = sort_key (path_weight g) (all_simple_paths g s t)
        in if ps = [] then Inl NetworkXNoPath else Inr ps)"

text \<open>
  \<^verbatim>\<open>list(itertools.islice(iterable, stop))\<close>: the stop argument has to lie between 0 and
  \<^verbatim>\<open>sys.maxsize\<close> (\<open>2\<^sup>6\<^sup>3 - 1\<close> on a 64-bit build), else the call raises \<^verbatim>\<open>ValueError\<close>
  before anything is requested from the iterable. With a stop of 0 nothing is requested
  from it either.
\<close>

definition sys_maxsize :: int where
  "sys_maxsize = 2 ^ 63 - 1"

definition islice :: "error + 'a list \<Rightarrow> int \<Rightarrow> error + 'a list" where
  "islice gen stop =
     (if stop < 0 \<or> sys_maxsize < stop then Inl ValueError
      else if stop = 0 then Inr []
      else case gen of Inl e \<Rightarrow> Inl e | Inr xs \<Rightarrow> Inr (take (nat stop) xs))"

text \<open>
  \<^verbatim>\<open>generator = nx.shortest_simple_paths(graph, start, goal, weight="weight")\<close>
  \<^verbatim>\<open>return list(itertools.islice(generator, k))\<close>
\<close>

definition k_shortest_paths :: "graph \<Rightarrow> coord \<Rightarrow> coord \<Rightarrow> int \<Rightarrow> error + path list" where
  "k_shortest_paths g start goal k = islice (shortest_simple_paths g start goal) k"

subsection \<open>The directed graph of the library\<close>

text \<open>
  Modelled from the spec: the directed graph class of the graph library, which is not
  part of the repository, as far as this program uses it. A node of the time-expanded
  network is a coordinate with a time step. The directed graph keeps its nodes in
  insertion order; an edge carries the attributes \<^verbatim>\<open>capacity\<close> and \<^verbatim>\<open>weight\<close>, a node
  may carry the attribute \<^verbatim>\<open>demand\<close>.
\<close>

type_synonym tnode = "coord \<times> nat"

record edge_attr =
  capacity :: int
  weight :: int

record digraph =
  d_nodes :: "tnode list"
  d_edges :: "tnode \<times> tnode \<rightharpoonup> edge_attr"
  d_demand :: "tnode \<rightharpoonup> int"

definition empty_digraph :: digraph where
  "empty_digraph = \<lparr>d_nodes = [], d_edges = Map.empty, d_demand = Map.empty\<rparr>"

definition dg_add_node :: "tnode \<Rightarrow> digraph \<Rightarrow> digraph" where
  "dg_add_node n d = (if n \<in> set (d_nodes d) then d else d\<lparr>d_nodes := d_nodes d @ [n]\<rparr>)"

definition dg_add_edge :: "tnode \<Rightarrow> tnode \<Rightarrow> int \<Rightarrow> int \<Rightarrow> digraph \<Rightarrow> digraph" where
  "dg_add_edge a b cap w d =
     (let d' = dg_add_node b (dg_add_node a d)
      in d'\<lparr>d_edges := (d_edges d')((a, b) \<mapsto> \<lparr>capacity = cap, weight = w\<rparr>)\<rparr>)"

text \<open>\<^verbatim>\<open>remove_node\<close> takes the node and every edge into or out of it away.\<close>

definition dg_remove_node :: "tnode \<Rightarrow> digraph \<Rightarrow> digraph" where
  "dg_remove_node n d =
     d\<lparr>d_nodes := removeAll n (d_nodes d),
       d_edges := (\<lambda>e. if fst e = n \<or> snd e = n then None else d_edges d e),
       d_demand := (d_demand d)(n := None)\<rparr>"

subsection \<open>Building the network\<close>

text \<open>
  The first loop of \<^verbatim>\<open>build_ten\<close>: the longest path length and the set of consecutive
  pairs \<^verbatim>\<open>zip(path[:-1], path[1:])\<close> of all candidate paths. The dictionary of
  candidate paths is a list of its items.
\<close>

definition scan_paths :: "(string \<times> path list) list \<Rightarrow> (coord \<times> coord) set \<times> nat" where
  "scan_paths paths_per_agent =
     fold (\<lambda>(agent, paths) acc.
            fold (\<lambda>p (allowed_edges, max_len).
                   (allowed_edges \<union> set (path_pairs p), max max_len (length p))) paths acc)
       paths_per_agent ({}, 0)"

text \<open>The body of the loop over the time steps: the wait edges, then the move edges.\<close>

definition add_wait :: "nat \<Rightarrow> coord \<Rightarrow> digraph \<Rightarrow> digraph" where
  "add_wait t node ten = dg_add_edge (node, t) (node, t + 1) 1 1 (dg_add_node (node, t) ten)"

fun add_move :: "(coord \<times> coord) set \<Rightarrow> nat \<Rightarrow> coord \<times> coord \<times> edge_data \<Rightarrow> digraph \<Rightarrow> digraph"
  where
  "add_move allowed_edges t (u, v, data) ten =
     (if (u, v) \<in> allowed_edges \<or> (v, u) \<in> allowed_edges
      then let cost = edge_cost data
           in dg_add_edge (v, t) (u, t + 1) 1 cost (dg_add_edge (u, t) (v, t + 1) 1 cost ten)
      else ten)"

definition ten_layer :: "graph \<Rightarrow> (coord \<times> coord) set \<Rightarrow> nat \<Rightarrow> digraph \<Rightarrow> digraph" where
  "ten_layer g allowed_edges t ten =
     fold (add_move allowed_edges t) (graph_edges g) (fold (add_wait t) (g_nodes g) ten)"

definition build_ten :: "graph \<Rightarrow> (string \<times> path list) list \<Rightarrow> digraph \<times> nat" where
  "build_ten g paths_per_agent =
     (let (allowed_edges, max_len) = scan_paths paths_per_agent;
          horizon = max_len;
          ten = fold (ten_layer g allowed_edges) [0..<horizon] empty_digraph;
          ten = fold (\<lambda>node. dg_add_node (node, horizon)) (g_nodes g) ten
      in (ten, horizon))"

text \<open>
  The network in the words of the specification. All candidate paths:
\<close>

definition all_paths :: "(string \<times> path list) list \<Rightarrow> path list" where
  "all_paths paths_per_agent = concat (map snd paths_per_agent)"

text \<open>
  A base edge \<open>{u, v}\<close> is allowed when it appears in either direction in a candidate
  path.
\<close>

definition allowed :: "(string \<times> path list) list \<Rightarrow> coord \<Rightarrow> coord \<Rightarrow> bool" where
  "allowed paths_per_agent u v \<longleftrightarrow>
     list_ex (\<lambda>p. (u, v) \<in> set (path_pairs p) \<or> (v, u) \<in> set (path_pairs p))
       (all_paths paths_per_agent)"

text \<open>
  The edge from \<open>(u, t)\<close> to \<open>(v, t')\<close>: for \<open>t\<close> below the horizon and \<open>t' = t + 1\<close>, a
  wait edge of capacity 1 and weight 1 where \<open>u = v\<close> is a coordinate of the base graph,
  a move edge of capacity 1 and the base weight where \<open>{u, v}\<close> is an allowed base edge;
  no other edge.
\<close>

fun spec_ten_edge ::
  "graph \<Rightarrow> (string \<times> path list) list \<Rightarrow> nat \<Rightarrow> tnode \<times> tnode \<Rightarrow> edge_attr option" where
  "spec_ten_edge g paths_per_agent horizon ((u, t), (v, t')) =
     (if t < horizon \<and> t' = t + 1
      then if u = v \<and> u \<in> set (g_nodes g) then Some \<lparr>capacity = 1, weight = 1\<rparr>
           else if g_adj g (u, v) \<noteq> None \<and> allowed paths_per_agent u v
           then Some \<lparr>capacity = 1, weight = edge_cost (the (g_adj g (u, v)))\<rparr>
           else None
      else None)"

text \<open>
  The same edge with the move edge taking precedence, as the order of the two inner loops
  has it; the components of an edge of the network, used to state it.
\<close>

definition t_src :: "tnode \<times> tnode \<Rightarrow> coord" where "t_src e = fst (fst e)"
definition t_dst :: "tnode \<times> tnode \<Rightarrow> coord" where "t_dst e = fst (snd e)"
definition t_time :: "tnode \<times> tnode \<Rightarrow> nat" where "t_time e = snd (fst e)"

definition is_step :: "nat \<Rightarrow> tnode \<times> tnode \<Rightarrow> bool" where
  "is_step t e \<longleftrightarrow> snd (fst e) = t \<and> snd (snd e) = t + 1"

definition move_ok :: "graph \<Rightarrow> (coord \<times> coord) set \<Rightarrow> coord \<Rightarrow> coord \<Rightarrow> bool" where
  "move_ok g A u v \<longleftrightarrow> g_adj g (u, v) \<noteq> None \<and> ((u, v) \<in> A \<or> (v, u) \<in> A)"

definition ten_edge :: "graph \<Rightarrow> (coord \<times> coord) set \<Rightarrow> nat \<Rightarrow> tnode \<times> tnode \<Rightarrow> edge_attr option"
  where
  "ten_edge g A t e =
     (if is_step t e
      then if move_ok g A (t_src e) (t_dst e)
           then Some \<lparr>capacity = 1, weight = edge_cost (the (g_adj g (t_src e, t_dst e)))\<rparr>
           else if t_src e = t_dst e \<and> t_src e \<in> set (g_nodes g)
           then Some \<lparr>capacity = 1, weight = 1\<rparr> else None
      else None)"

text \<open>The consecutive pairs and the greatest length of a list of paths.\<close>

definition pairs_of :: "path list \<Rightarrow> (coord \<times> coord) set" where
  "pairs_of ps = (\<Union>p \<in> set ps. set (path_pairs p))"

definition longest :: "path list \<Rightarrow> nat" where
  "longest ps = Max (insert 0 (length ` set ps))"

section \<open>Conflict-based min-cost-flow planner (mcf\_solver.py)\<close>

type_synonym agent_spec = "coord \<times> coord"
type_synonym agents = "(string \<times> agent_spec) list"
type_synonym paths = "(string \<times> path) list"

text \<open>
  The flow dictionary that the network simplex returns: for every node the flow on each
  of its outgoing edges.
\<close>

type_synonym flow = "(tnode \<times> (tnode \<times> int) list) list"

text \<open>
  The min-cost-flow solver of the graph library is not part of the repository; the
  planner is modelled for an arbitrary solver, which returns a flow or raises.
\<close>

type_synonym solver = "digraph \<Rightarrow> error + flow"

subsection \<open>Path extraction\<close>

text \<open>
  \<^verbatim>\<open>for v, f in edges.items(): if f > 0: next_node = v; ...; break\<close>
\<close>

fun first_positive :: "(tnode \<times> int) list \<Rightarrow> tnode option" where
  "first_positive [] = None"
| "first_positive ((v, f) # es) = (if 0 < f then Some v else first_positive es)"

text \<open>
  The inner loop \<^verbatim>\<open>for _ in range(horizon)\<close> of \<^verbatim>\<open>_extract_paths\<close>, with the flow
  table that it decrements passed along.
\<close>

fun walk_flow :: "nat \<Rightarrow> flow \<Rightarrow> tnode \<Rightarrow> path \<Rightarrow> flow \<times> path" where
  "walk_flow 0 fl node p = (fl, p)"
| "walk_flow (Suc n) fl node p =
     (let edges = (case map_of fl node of None \<Rightarrow> [] | Some es \<Rightarrow> es)
      in case first_positive edges of
           None \<Rightarrow> (fl, p)
         | Some v \<Rightarrow>
             walk_flow n (dict_set fl node (dict_set edges v (the (map_of edges v) - 1)))
               v (p @ [fst v]))"

definition extract_paths :: "flow \<Rightarrow> agents \<Rightarrow> nat \<Rightarrow> paths" where
  "extract_paths fl ags horizon =
     snd (fold (\<lambda>(agent, (start, goal)) (fl', ps).
                 let (fl'', p) = walk_flow horizon fl' (start, 0) [start]
                 in (fl'', dict_set ps agent p))
            ags (fl, []))"

subsection \<open>Conflict detection\<close>

type_synonym conflict = "string \<times> string \<times> coord \<times> nat"

text \<open>
  The loop over the agents at one time step, with the occupancy dictionary.
  \<^verbatim>\<open>path[-1]\<close> raises \<^verbatim>\<open>IndexError\<close> on an empty path.
\<close>

fun scan_agents :: "nat \<Rightarrow> (coord \<rightharpoonup> string) \<Rightarrow> paths \<Rightarrow> error + conflict option" where
  "scan_agents t occupancy [] = Inr None"
| "scan_agents t occupancy ((agent, p) # rest) =
     (if \<not> t < length p \<and> p = [] then Inl IndexError
      else
        let node = (if t < length p then p ! t else last p)
        in case occupancy node of
             Some other \<Rightarrow> Inr (Some (other, agent, node, t))
           | None \<Rightarrow> scan_agents t (occupancy(node \<mapsto> agent)) rest)"

text \<open>The loop over the time steps, which returns at the first conflict.\<close>

fun scan_times :: "nat list \<Rightarrow> paths \<Rightarrow> error + conflict option" where
  "scan_times [] ps = Inr None"
| "scan_times (t # ts) ps =
     (case scan_agents t Map.empty ps of
        Inl e \<Rightarrow> Inl e
      | Inr (Some c) \<Rightarrow> Inr (Some c)
      | Inr None \<Rightarrow> scan_times ts ps)"

text \<open>\<^verbatim>\<open>max\<close> of an empty sequence raises \<^verbatim>\<open>ValueError\<close>.\<close>

definition detect_conflict :: "paths \<Rightarrow> error + conflict option" where
  "detect_conflict ps =
     (if ps = [] then Inl ValueError
      else scan_times [0..<Max (set (map (\<lambda>(agent, p). length p) ps))] ps)"

subsection \<open>Min-cost flow\<close>

text \<open>
  \<^verbatim>\<open>graph.nodes[n]["demand"]\<close> raises \<^verbatim>\<open>KeyError\<close> for a node that is not in the graph.
\<close>

definition bump_demand :: "tnode \<Rightarrow> int \<Rightarrow> digraph \<Rightarrow> error + digraph" where
  "bump_demand n delta d =
     (if n \<in> set (d_nodes d)
      then Inr (d\<lparr>d_demand := (d_demand d)(n \<mapsto> the (d_demand d n) + delta)\<rparr>)
      else Inl KeyError)"

fun add_demands :: "agents \<Rightarrow> nat \<Rightarrow> digraph \<Rightarrow> error + digraph" where
  "add_demands [] horizon d = Inr d"
| "add_demands ((agent, (start, goal)) # rest) horizon d =
     (case bump_demand (start, 0) (- 1) d of
        Inl e \<Rightarrow> Inl e
      | Inr d' \<Rightarrow>
          (case bump_demand (goal, horizon) 1 d' of
             Inl e \<Rightarrow> Inl e
           | Inr d'' \<Rightarrow> add_demands rest horizon d''))"

definition zero_demand :: "digraph \<Rightarrow> digraph" where
  "zero_demand d = d\<lparr>d_demand := (\<lambda>n. if n \<in> set (d_nodes d) then Some 0 else None)\<rparr>"

definition solve_mcf :: "solver \<Rightarrow> digraph \<Rightarrow> agents \<Rightarrow> nat \<Rightarrow> error + paths" where
  "solve_mcf network_simplex ten ags horizon =
     (case add_demands ags horizon (zero_demand ten) of
        Inl e \<Rightarrow> Inl e
      | Inr graph \<Rightarrow>
          (case network_simplex graph of
             Inl e \<Rightarrow> Inl e
           | Inr fl \<Rightarrow> Inr (extract_paths fl ags horizon)))"

subsection \<open>The outer loop\<close>

text \<open>
  A forbidden set is a list without repetition; the order of the list stands for the
  order in which the set is iterated, on which nothing depends.
\<close>

type_synonym constraints = "(string \<times> tnode list) list"

definition set_add :: "'a list \<Rightarrow> 'a \<Rightarrow> 'a list" where
  "set_add xs x = (if x \<in> set xs then xs else xs @ [x])"

text \<open>\<^verbatim>\<open>constraints = {a: set() for a in agents}\<close>\<close>

definition init_constraints :: "agents \<Rightarrow> constraints" where
  "init_constraints ags = map (\<lambda>(a, spec). (a, [])) ags"

text \<open>
  \<^verbatim>\<open>{a: k_shortest_paths(graph, start, goal, k) for a, (start, goal) in agents.items()}\<close>
\<close>

fun candidates :: "graph \<Rightarrow> agents \<Rightarrow> int \<Rightarrow> error + (string \<times> path list) list" where
  "candidates g [] k = Inr []"
| "candidates g ((a, (start, goal)) # rest) k =
     (case k_shortest_paths g start goal k of
        Inl e \<Rightarrow> Inl e
      | Inr ps \<Rightarrow>
          (case candidates g rest k of
             Inl e \<Rightarrow> Inl e
           | Inr r \<Rightarrow> Inr ((a, ps) # r)))"

text \<open>
  \<^verbatim>\<open>for agent, forbidden in constraints.items():\<close>
  \<^verbatim>\<open>    for node, t in forbidden:\<close>
  \<^verbatim>\<open>        if (node, t) in ten: ten.remove_node((node, t))\<close>
\<close>

definition remove_forbidden :: "constraints \<Rightarrow> digraph \<Rightarrow> digraph" where
  "remove_forbidden cs ten =
     fold (\<lambda>(agent, forbidden) d.
             fold (\<lambda>n d'. if n \<in> set (d_nodes d') then dg_remove_node n d' else d') forbidden d)
       cs ten"

text \<open>
  One pass through the body of \<^verbatim>\<open>while True\<close>: it raises, or returns the paths (after
  reserving them in the reservation table, which is local to the call), or goes round
  again with the conflict it found and the constraints it has extended.
\<close>

datatype outcome =
    Done paths table
  | Again conflict constraints

definition cbm_iter :: "solver \<Rightarrow> graph \<Rightarrow> agents \<Rightarrow> int \<Rightarrow> constraints \<Rightarrow> error + outcome"
  where
  "cbm_iter network_simplex g ags k cs =
     (case candidates g ags k of
        Inl e \<Rightarrow> Inl e
      | Inr paths_per_agent \<Rightarrow>
          let (ten, horizon) = build_ten g paths_per_agent;
              ten = remove_forbidden cs ten
          in case solve_mcf network_simplex ten ags horizon of
               Inl e \<Rightarrow> Inl e
             | Inr ps \<Rightarrow>
                 (case detect_conflict ps of
                    Inl e \<Rightarrow> Inl e
                  | Inr None \<Rightarrow>
                      Inr (Done ps (fold (\<lambda>(agent, p) tb. reserve tb agent p) ps new_table))
                  | Inr (Some (a1, a2, node, time)) \<Rightarrow>
                      (case map_of cs a2 of
                         None \<Rightarrow> Inl KeyError
                       | Some forbidden \<Rightarrow>
                           Inr (Again (a1, a2, node, time)
                                  (dict_set cs a2 (set_add forbidden (node, time)))))))"

text \<open>
  The loop has no bound: where it does not end, the result is \<^term>\<open>None\<close>.
\<close>

partial_function (option) cbm_loop ::
  "solver \<Rightarrow> graph \<Rightarrow> agents \<Rightarrow> int \<Rightarrow> constraints \<Rightarrow> (error + paths) option" where
  "cbm_loop network_simplex g ags k cs =
     (case cbm_iter network_simplex g ags k cs of
        Inl e \<Rightarrow> Some (Inl e)
      | Inr (Done ps tb) \<Rightarrow> Some (Inr ps)
      | Inr (Again c cs') \<Rightarrow> cbm_loop network_simplex g ags k cs')"

definition cbm_solve :: "solver \<Rightarrow> graph \<Rightarrow> agents \<Rightarrow> int \<Rightarrow> (error + paths) option" where
  "cbm_solve network_simplex g ags k = cbm_loop network_simplex g ags k (init_constraints ags)"




section \<open>Command line: the plan command (cli.py)\<close>

text \<open>
  \<^verbatim>\<open>{name: (spec["start"], spec["goal"]) for name, spec in ... if "start" in spec and "goal" in spec}\<close>
\<close>

definition plan_agents :: "(string \<times> agent_entry) list \<Rightarrow> agents" where
  "plan_agents entries =
     List.map_filter
       (\<lambda>(name, spec). case (entry_start spec, entry_goal spec) of
                          (Some s, Some g) \<Rightarrow> Some (name, (s, g))
                        | _ \<Rightarrow> None)
       entries"

text \<open>The paths that the plan command computes from a loaded map, before it saves them.\<close>

definition plan :: "solver \<Rightarrow> map_data \<Rightarrow> int \<Rightarrow> (error + paths) option" where
  "plan network_simplex data k =
     cbm_solve network_simplex (lines_to_graph (lines data)) (plan_agents (agents data)) k"

section \<open>Map files (map\_io.py)\<close>

text \<open>
  \<^verbatim>\<open>load_map\<close> reads a file and parses it with the JSON or the YAML parser, and
  \<^verbatim>\<open>save_map\<close> renders a dictionary as JSON text. The parsers and the renderer belong to
  the standard library and to the YAML library; the model starts from the parsed value
  and ends with the dictionary that is rendered.
\<close>

subsection \<open>Reading values\<close>

text \<open>\<^verbatim>\<open>data.get(key, default)\<close> on a dictionary.\<close>

definition get_or :: "(string \<times> json) list \<Rightarrow> string \<Rightarrow> json \<Rightarrow> json" where
  "get_or kvs key dflt = (case map_of kvs key of None \<Rightarrow> dflt | Some v \<Rightarrow> v)"

text \<open>
  Geometry has the shape that the type aliases \<^verbatim>\<open>Line\<close>, \<^verbatim>\<open>Tuple[int, int]\<close> and
  \<^verbatim>\<open>Rect\<close> declare. The source converts with \<^verbatim>\<open>tuple\<close> and would carry a value of
  another shape along until it is used; here such a value is rejected when it is read.
  Unpacking \<^verbatim>\<open>p1, p2 = ...\<close> of a list that does not have two elements raises
  \<^verbatim>\<open>ValueError\<close>.
\<close>

fun as_coord :: "json \<Rightarrow> error + coord" where
  "as_coord (JList [JInt x, JInt y]) = Inr (x, y)"
| "as_coord j = Inl TypeError"

fun as_line :: "json \<Rightarrow> error + line" where
  "as_line (JList [p1, p2]) =
     (case as_coord p1 of
        Inl e \<Rightarrow> Inl e
      | Inr c1 \<Rightarrow> (case as_coord p2 of Inl e \<Rightarrow> Inl e | Inr c2 \<Rightarrow> Inr (c1, c2)))"
| "as_line (JList ps) = Inl ValueError"
| "as_line j = Inl TypeError"

fun as_rect :: "json \<Rightarrow> error + rect" where
  "as_rect (JList [JInt x1, JInt y1, JInt x2, JInt y2]) = Inr (x1, y1, x2, y2)"
| "as_rect j = Inl TypeError"

text \<open>A loop that appends to a list and stops at the first exception.\<close>

fun collect :: "('a \<Rightarrow> error + 'b) \<Rightarrow> 'a list \<Rightarrow> error + 'b list" where
  "collect f [] = Inr []"
| "collect f (x # xs) =
     (case f x of
        Inl e \<Rightarrow> Inl e
      | Inr y \<Rightarrow> (case collect f xs of Inl e \<Rightarrow> Inl e | Inr ys \<Rightarrow> Inr (y # ys)))"

subsection \<open>Loading\<close>

text \<open>
  The metadata of an item that is a dictionary, and the metadata made up for the item
  at index \<open>idx\<close> of a bare list.
\<close>

definition entry_meta :: "(string \<times> json) list \<Rightarrow> meta" where
  "entry_meta kvs =
     \<lparr>m_id = get_or kvs ''id'' JNull,
      m_layer = get_or kvs ''layer'' (JStr ''Default''),
      m_attributes = get_or kvs ''attributes'' (JObj []),
      m_style = get_or kvs ''style'' (JObj [])\<rparr>"

definition default_meta :: "nat \<Rightarrow> meta" where
  "default_meta idx =
     \<lparr>m_id = JInt (int idx + 1), m_layer = JStr ''Default'',
      m_attributes = JObj [], m_style = JObj []\<rparr>"

text \<open>
  The source has the same block three times, for the lines, the nodes and the
  obstacles; they differ in the key of the geometry, its default and its conversion,
  which are the parameters here. \<^verbatim>\<open>entry.get\<close> on an item that is no dictionary raises
  \<^verbatim>\<open>AttributeError\<close>.
\<close>

fun load_entry :: "(json \<Rightarrow> error + 'g) \<Rightarrow> string \<Rightarrow> json \<Rightarrow> json \<Rightarrow> error + 'g \<times> meta" where
  "load_entry conv key dflt (JObj kvs) =
     (case conv (get_or kvs key dflt) of
        Inl e \<Rightarrow> Inl e
      | Inr geom \<Rightarrow> Inr (geom, entry_meta kvs))"
| "load_entry conv key dflt j = Inl AttributeError"

fun load_bare :: "(json \<Rightarrow> error + 'g) \<Rightarrow> nat \<times> json \<Rightarrow> error + 'g \<times> meta" where
  "load_bare conv (idx, raw) =
     (case conv raw of Inl e \<Rightarrow> Inl e | Inr geom \<Rightarrow> Inr (geom, default_meta idx))"

fun is_dict :: "json \<Rightarrow> bool" where
  "is_dict (JObj kvs) = True"
| "is_dict j = False"

text \<open>
  \<^verbatim>\<open>if raw and isinstance(raw[0], dict): ... else: for idx, x in enumerate(raw): ...\<close>
  The value under a geometry key is a list in every map file. Of the other values the
  empty string and the empty dictionary are falsy and enumerate to nothing; the rest
  make the source fail, or give geometry of the wrong shape, which is rejected here.
\<close>

fun load_collection ::
  "(json \<Rightarrow> error + 'g) \<Rightarrow> string \<Rightarrow> json \<Rightarrow> json \<Rightarrow> error + ('g \<times> meta) list" where
  "load_collection conv key dflt (JList []) = Inr []"
| "load_collection conv key dflt (JList (x # xs)) =
     (if is_dict x then collect (load_entry conv key dflt) (x # xs)
      else collect (load_bare conv) (enumerate 0 (x # xs)))"
| "load_collection conv key dflt (JStr []) = Inr []"
| "load_collection conv key dflt (JObj []) = Inr []"
| "load_collection conv key dflt (JObj (kv # kvs)) = Inl KeyError"
| "load_collection conv key dflt j = Inl TypeError"

text \<open>
  \<^verbatim>\<open>{k: tuple(v[k]) for k in ("start", "goal") if k in v}\<close> for an agent whose value
  is a dictionary.
\<close>

definition load_slot :: "(string \<times> json) list \<Rightarrow> string \<Rightarrow> error + coord option" where
  "load_slot kvs k =
     (case map_of kvs k of
        None \<Rightarrow> Inr None
      | Some v \<Rightarrow> (case as_coord v of Inl e \<Rightarrow> Inl e | Inr c \<Rightarrow> Inr (Some c)))"

fun load_agent :: "string \<times> json \<Rightarrow> error + string \<times> agent_entry" where
  "load_agent (name, JObj kvs) =
     (case load_slot kvs ''start'' of
        Inl e \<Rightarrow> Inl e
      | Inr s \<Rightarrow>
          (case load_slot kvs ''goal'' of
             Inl e \<Rightarrow> Inl e
           | Inr g \<Rightarrow> Inr (name, \<lparr>entry_start = s, entry_goal = g\<rparr>)))"
| "load_agent (name, j) = Inl TypeError"

fun load_agents :: "json \<Rightarrow> error + (string \<times> agent_entry) list" where
  "load_agents (JObj kvs) = collect load_agent kvs"
| "load_agents j = Inl AttributeError"

definition default_layers :: json where
  "default_layers =
     JList [JObj [(''name'', JStr ''Default''), (''color'', JStr ''#000000''),
                  (''visible'', JBool True)]]"

text \<open>The body of \<^verbatim>\<open>load_map\<close> after the file has been parsed.\<close>

fun load_map_data :: "json \<Rightarrow> error + map_data" where
  "load_map_data (JObj kvs) =
     (case load_collection as_line ''points'' (JList [JList [JInt 0, JInt 0], JList [JInt 0, JInt 0]])
             (get_or kvs ''lines'' (JList [])) of
        Inl e \<Rightarrow> Inl e
      | Inr ls \<Rightarrow>
     (case load_collection as_coord ''point'' (JList [JInt 0, JInt 0])
             (get_or kvs ''nodes'' (JList [])) of
        Inl e \<Rightarrow> Inl e
      | Inr ns \<Rightarrow>
     (case load_collection as_rect ''rect'' (JList [JInt 0, JInt 0, JInt 0, JInt 0])
             (get_or kvs ''obstacles'' (JList [])) of
        Inl e \<Rightarrow> Inl e
      | Inr obs \<Rightarrow>
     (case load_agents (get_or kvs ''agents'' (JObj [])) of
        Inl e \<Rightarrow> Inl e
      | Inr ags \<Rightarrow>
          Inr \<lparr>layers = get_or kvs ''layers'' default_layers,
               lines = map fst ls, line_meta = map snd ls,
               nodes = map fst ns, node_meta = map snd ns,
               obstacles = map fst obs, obstacle_meta = map snd obs,
               agents = ags\<rparr>))))"
| "load_map_data j = Inl AttributeError"

text \<open>
  \<^verbatim>\<open>load_map\<close>, given the suffix of the path and the value that the parser returns for
  the file. Any suffix but the three raises \<^verbatim>\<open>ValueError\<close>.
\<close>

definition load_map :: "string \<Rightarrow> json \<Rightarrow> error + map_data" where
  "load_map suffix parsed =
     (if suffix = ''.yml'' \<or> suffix = ''.yaml'' \<or> suffix = ''.json''
      then load_map_data parsed else Inl ValueError)"

subsection \<open>Saving\<close>

definition coord_json :: "coord \<Rightarrow> json" where
  "coord_json c = JList [JInt (fst c), JInt (snd c)]"

text \<open>\<^verbatim>\<open>[list(pt) for pt in g]\<close> for a line, \<^verbatim>\<open>list(g)\<close> for a node and an obstacle.\<close>

fun line_json :: "line \<Rightarrow> json" where
  "line_json (c1, c2) = JList [coord_json c1, coord_json c2]"

fun rect_json :: "rect \<Rightarrow> json" where
  "rect_json (x1, y1, x2, y2) = JList [JInt x1, JInt y1, JInt x2, JInt y2]"

text \<open>
  \<^verbatim>\<open>_combine_collection\<close>: \<^verbatim>\<open>entry = {key: geometry}; entry.update(m)\<close> for the pairs of
  \<^verbatim>\<open>zip(geom, meta)\<close>. The conversion of the geometry, which the source chooses by the
  key, is a parameter.
\<close>

definition combine_entry :: "('g \<Rightarrow> json) \<Rightarrow> string \<Rightarrow> 'g \<times> meta \<Rightarrow> json" where
  "combine_entry to_json key gm =
     JObj [(key, to_json (fst gm)), (''id'', m_id (snd gm)), (''layer'', m_layer (snd gm)),
           (''attributes'', m_attributes (snd gm)), (''style'', m_style (snd gm))]"

definition combine_collection :: "('g \<Rightarrow> json) \<Rightarrow> 'g list \<Rightarrow> meta list \<Rightarrow> string \<Rightarrow> json" where
  "combine_collection to_json geom metas key =
     JList (map (combine_entry to_json key) (zip geom metas))"

text \<open>\<^verbatim>\<open>{key: list(coords) for key, coords in v.items()}\<close>\<close>

definition agent_json :: "agent_entry \<Rightarrow> json" where
  "agent_json a =
     JObj ((case entry_start a of None \<Rightarrow> [] | Some c \<Rightarrow> [(''start'', coord_json c)]) @
           (case entry_goal a of None \<Rightarrow> [] | Some c \<Rightarrow> [(''goal'', coord_json c)]))"

text \<open>The dictionary \<^verbatim>\<open>serialised\<close> that \<^verbatim>\<open>save_map\<close> writes.\<close>

definition save_map :: "map_data \<Rightarrow> json" where
  "save_map data =
     JObj [(''layers'', layers data),
           (''lines'', combine_collection line_json (lines data) (line_meta data) ''points''),
           (''nodes'', combine_collection coord_json (nodes data) (node_meta data) ''point''),
           (''obstacles'',
              combine_collection rect_json (obstacles data) (obstacle_meta data) ''rect''),
           (''agents'', JObj (map (\<lambda>(name, a). (name, agent_json a)) (agents data)))]"

subsection \<open>What a map file holds\<close>

text \<open>Looking a key up in a value that is a dictionary.\<close>

fun jget :: "json \<Rightarrow> string \<Rightarrow> json option" where
  "jget (JObj kvs) key = map_of kvs key"
| "jget j key = None"

text \<open>The items of the list under a key, none if the key or the list is missing.\<close>

definition items_of :: "json \<Rightarrow> string \<Rightarrow> json list" where
  "items_of file key = (case jget file key of Some (JList xs) \<Rightarrow> xs | _ \<Rightarrow> [])"

text \<open>
  What the round trip is to reproduce: the layers; of every line, node and obstacle, in
  the order of the file, the geometry under its key and the id, layer, attributes and
  style; of every agent, in order, the name with the start and goal.
\<close>

definition item_view :: "string \<Rightarrow> json \<Rightarrow> json option list" where
  "item_view key item =
     [jget item key, jget item ''id'', jget item ''layer'', jget item ''attributes'',
      jget item ''style'']"

definition agents_view :: "json \<Rightarrow> (string \<times> json option \<times> json option) list" where
  "agents_view file =
     (case jget file ''agents'' of
        Some (JObj kvs) \<Rightarrow> map (\<lambda>(name, v). (name, jget v ''start'', jget v ''goal'')) kvs
      | _ \<Rightarrow> [])"

definition file_view ::
  "json \<Rightarrow> json option \<times> json option list list \<times> json option list list \<times> json option list list
          \<times> (string \<times> json option \<times> json option) list" where
  "file_view file =
     (jget file ''layers'',
      map (item_view ''points'') (items_of file ''lines''),
      map (item_view ''point'') (items_of file ''nodes''),
      map (item_view ''rect'') (items_of file ''obstacles''),
      agents_view file)"

text \<open>
  The canonical per-item form. An item is a dictionary that holds geometry of the right
  shape under its key and has the four metadata keys; an agent is a dictionary whose
  start and goal, where present, are coordinate pairs.
\<close>

fun is_coord :: "json \<Rightarrow> bool" where
  "is_coord (JList [JInt x, JInt y]) = True"
| "is_coord j = False"

fun is_points :: "json \<Rightarrow> bool" where
  "is_points (JList [p1, p2]) = (is_coord p1 \<and> is_coord p2)"
| "is_points j = False"

fun is_rect :: "json \<Rightarrow> bool" where
  "is_rect (JList [JInt x1, JInt y1, JInt x2, JInt y2]) = True"
| "is_rect j = False"

fun canonical_item :: "(json \<Rightarrow> bool) \<Rightarrow> string \<Rightarrow> json \<Rightarrow> bool" where
  "canonical_item shape key (JObj kvs) =
     ((case map_of kvs key of None \<Rightarrow> False | Some geom \<Rightarrow> shape geom) \<and>
      map_of kvs ''id'' \<noteq> None \<and> map_of kvs ''layer'' \<noteq> None \<and>
      map_of kvs ''attributes'' \<noteq> None \<and> map_of kvs ''style'' \<noteq> None)"
| "canonical_item shape key j = False"

fun canonical_agent :: "string \<times> json \<Rightarrow> bool" where
  "canonical_agent (name, JObj kvs) =
     ((case map_of kvs ''start'' of None \<Rightarrow> True | Some c \<Rightarrow> is_coord c) \<and>
      (case map_of kvs ''goal'' of None \<Rightarrow> True | Some c \<Rightarrow> is_coord c))"
| "canonical_agent (name, j) = False"

fun canonical_items :: "(json \<Rightarrow> bool) \<Rightarrow> string \<Rightarrow> json option \<Rightarrow> bool" where
  "canonical_items shape key None = True"
| "canonical_items shape key (Some (JList xs)) = list_all (canonical_item shape key) xs"
| "canonical_items shape key (Some j) = False"

fun canonical_agents :: "json option \<Rightarrow> bool" where
  "canonical_agents None = True"
| "canonical_agents (Some (JObj kvs)) = list_all canonical_agent kvs"
| "canonical_agents (Some j) = False"

fun canonical :: "json \<Rightarrow> bool" where
  "canonical (JObj kvs) =
     (map_of kvs ''layers'' \<noteq> None \<and>
      canonical_items is_points ''points'' (map_of kvs ''lines'') \<and>
      canonical_items is_coord ''point'' (map_of kvs ''nodes'') \<and>
      canonical_items is_rect ''rect'' (map_of kvs ''obstacles'') \<and>
      canonical_agents (map_of kvs ''agents''))"
| "canonical j = False"

text \<open>
  The legacy form: under each geometry key that is present, a list of bare geometry
  values of the right shape, none of them a dictionary.
\<close>

fun bare_items :: "(json \<Rightarrow> bool) \<Rightarrow> json option \<Rightarrow> bool" where
  "bare_items shape None = True"
| "bare_items shape (Some (JList xs)) = list_all shape xs"
| "bare_items shape (Some j) = False"

fun legacy :: "json \<Rightarrow> bool" where
  "legacy (JObj kvs) =
     (bare_items is_points (map_of kvs ''lines'') \<and>
      bare_items is_coord (map_of kvs ''nodes'') \<and>
      bare_items is_rect (map_of kvs ''obstacles'') \<and>
      canonical_agents (map_of kvs ''agents''))"
| "legacy j = False"

text \<open>The metadata made up for a bare list of \<open>n\<close> items.\<close>

definition default_metas :: "nat \<Rightarrow> meta list" where
  "default_metas n = map default_meta [0..<n]"

definition supported_suffix :: "string \<Rightarrow> bool" where
  "supported_suffix suffix \<longleftrightarrow> suffix = ''.yml'' \<or> suffix = ''.yaml'' \<or> suffix = ''.json''"

section \<open>Reservation table: properties\<close>

lemma fold_reserve_enumerate:
  "fold (\<lambda>(t, node) tb. tb((node, int t) \<mapsto> agent)) (enumerate n p) tbl k =
     (if \<exists>i < length p. k = (p ! i, int (n + i)) then Some agent else tbl k)"
proof (induction p arbitrary: n tbl)
  case Nil
  then show ?case by simp
next
  case (Cons x xs)
  have split: "(\<exists>i < length (x # xs). k = ((x # xs) ! i, int (n + i))) \<longleftrightarrow>
      k = (x, int n) \<or> (\<exists>i < length xs. k = (xs ! i, int (Suc n + i)))"
  proof
    assume "\<exists>i < length (x # xs). k = ((x # xs) ! i, int (n + i))"
    then obtain i where i: "i < length (x # xs)" "k = ((x # xs) ! i, int (n + i))" by blast
    show "k = (x, int n) \<or> (\<exists>i < length xs. k = (xs ! i, int (Suc n + i)))"
    proof (cases i)
      case 0
      with i show ?thesis by simp
    next
      case (Suc j)
      with i have "j < length xs" "k = (xs ! j, int (Suc n + j))" by simp_all
      then show ?thesis by blast
    qed
  next
    assume "k = (x, int n) \<or> (\<exists>i < length xs. k = (xs ! i, int (Suc n + i)))"
    then show "\<exists>i < length (x # xs). k = ((x # xs) ! i, int (n + i))"
    proof
      assume "k = (x, int n)"
      then have "0 < length (x # xs) \<and> k = ((x # xs) ! 0, int (n + 0))" by simp
      then show ?thesis by blast
    next
      assume "\<exists>i < length xs. k = (xs ! i, int (Suc n + i))"
      then obtain j where "j < length xs" "k = (xs ! j, int (Suc n + j))" by blast
      then have "Suc j < length (x # xs) \<and> k = ((x # xs) ! Suc j, int (n + Suc j))" by simp
      then show ?thesis by blast
    qed
  qed
  show ?case
    unfolding split using Cons.IH [of "Suc n" "tbl((x, int n) \<mapsto> agent)"]
    by auto
qed

lemma reserve_lookup:
  "reserve tbl agent p k =
     (if \<exists>i < length p. k = (p ! i, int i) then Some agent else tbl k)"
  using fold_reserve_enumerate [of agent 0 p tbl k] by (simp add: reserve_def)

lemma lock_ahead_lookup:
  "lock_ahead tbl agent p steps k =
     (if \<exists>i < length (slice_to p steps). k = (slice_to p steps ! i, int i)
      then Some agent else tbl k)"
  using fold_reserve_enumerate [of agent 0 "slice_to p steps" tbl k]
  by (simp add: lock_ahead_def)

text \<open>
  C9. \<^verbatim>\<open>reserve\<close> stores the agent at \<open>(path[t], t)\<close> for every index \<open>t\<close> of the path,
  overwriting whatever was there, and changes no other key; \<^verbatim>\<open>is_reserved\<close> is true
  exactly when the key holds a reservation; for a step count \<open>n \<ge> 0\<close>,
  \<^verbatim>\<open>lock_ahead\<close> stores the agent at \<open>(path[t], t)\<close> for the indices \<open>t < n\<close> of the path
  only and changes no other key, so the rest of the path is not reserved by it.
\<close>

theorem reservation_table_contract:
  assumes "0 \<le> n"
  shows "reserve tbl a p k = (if \<exists>i < length p. k = (p ! i, int i) then Some a else tbl k)
       \<and> (is_reserved tbl c t \<longleftrightarrow> (\<exists>b. tbl (c, t) = Some b))
       \<and> lock_ahead tbl a p n k =
           (if \<exists>i < min (nat n) (length p). k = (p ! i, int i) then Some a else tbl k)"
proof -
  have sl: "slice_to p n = take (nat n) p"
    using assms by (simp add: slice_to_def)
  have "(\<exists>i < length (slice_to p n). k = (slice_to p n ! i, int i)) \<longleftrightarrow>
        (\<exists>i < min (nat n) (length p). k = (p ! i, int i))"
    unfolding sl by (auto simp: min_def)
  then have "lock_ahead tbl a p n k =
           (if \<exists>i < min (nat n) (length p). k = (p ! i, int i) then Some a else tbl k)"
    using lock_ahead_lookup [of tbl a p n k] by simp
  moreover have "is_reserved tbl c t \<longleftrightarrow> (\<exists>b. tbl (c, t) = Some b)"
    by (auto simp: is_reserved_def)
  ultimately show ?thesis
    using reserve_lookup [of tbl a p k] by blast
qed

theorem reservation_table_contract_witness:
  "(0::int) \<le> 1
   \<and> is_reserved (reserve new_table ''A'' [(0, 0), (40, 0), (80, 0)]) (40, 0) 1
   \<and> \<not> is_reserved (reserve new_table ''A'' [(0, 0), (40, 0), (80, 0)]) (40, 0) 0
   \<and> lock_ahead (reserve new_table ''A'' [(0, 0), (40, 0), (80, 0)]) ''B''
        [(0, 0), (40, 0)] 1 ((0, 0), 0) = Some ''B''
   \<and> lock_ahead (reserve new_table ''A'' [(0, 0), (40, 0), (80, 0)]) ''B''
        [(0, 0), (40, 0)] 1 ((40, 0), 1) = Some ''A''
   \<and> \<not> is_reserved (lock_ahead new_table ''B'' [(0, 0), (40, 0)] 1) (40, 0) 1"
proof -
  let ?pa = "[(0, 0), (40, 0), (80, 0)] :: path"
  let ?pb = "[(0, 0), (40, 0)] :: path"
  let ?ta = "reserve new_table ''A'' ?pa"
  have h: "(0::int) \<le> 1" by simp
  have a1: "?ta ((40, 0), 1) = Some ''A''"
    using reservation_table_contract
      [OF h, where tbl = new_table and a = "''A''" and p = ?pa and k = "((40, 0), 1)"]
    by (simp add: new_table_def)
  have a0: "?ta ((40, 0), 0) = None"
    using reservation_table_contract
      [OF h, where tbl = new_table and a = "''A''" and p = ?pa and k = "((40, 0), 0)"]
    by (simp add: new_table_def)
  have b0: "lock_ahead ?ta ''B'' ?pb 1 ((0, 0), 0) = Some ''B''"
    using reservation_table_contract
      [OF h, where tbl = ?ta and a = "''B''" and p = ?pb and k = "((0, 0), 0)"]
    by simp
  have b1: "lock_ahead ?ta ''B'' ?pb 1 ((40, 0), 1) = Some ''A''"
    using reservation_table_contract
      [OF h, where tbl = ?ta and a = "''B''" and p = ?pb and k = "((40, 0), 1)"] a1
    by simp
  have b2: "lock_ahead new_table ''B'' ?pb 1 ((40, 0), 1) = None"
    using reservation_table_contract
      [OF h, where tbl = new_table and a = "''B''" and p = ?pb and k = "((40, 0), 1)"]
    by (simp add: new_table_def)
  have r: "\<And>tb c t. is_reserved tb c t \<longleftrightarrow> (\<exists>b. tb (c, t) = Some b)"
    using reservation_table_contract [OF h] by blast
  show ?thesis
    using h a1 a0 b0 b1 b2 by (simp add: r)
qed

section \<open>Occupancy grid export: properties\<close>

subsection \<open>Division through a float\<close>

text \<open>
  Where the float quotient is rounded, the truncation differs from the exact one; a
  quotient too large for a float raises.
\<close>

lemma int_truediv_rounded: "int_truediv 199999999999999999 (10 ^ 17) = Inr 2"
  by code_simp

lemma int_truediv_negative: "int_truediv (- 50) 40 = Inr (- 1)"
  by code_simp

lemma int_truediv_overflow: "int_truediv (2 ^ 1024) 1 = Inl OverflowError"
  by code_simp

text \<open>
  For a dividend below \<open>2\<^sup>5\<^sup>3\<close> the truncated float quotient is the exact one: the quotient
  could only be rounded up to the next integer \<open>n + 1\<close> if it were within half a float
  spacing of it, and it is at least \<open>1 / b\<close> away, which forces \<open>2\<^sup>5\<^sup>3 \<le> a\<close>.
\<close>

lemma bit_length_bounds: "0 < n \<Longrightarrow> 2 ^ (bit_length n - 1) \<le> n \<and> n < 2 ^ bit_length n"
proof (induction "nat n" arbitrary: n rule: less_induct)
  case less
  show ?case
  proof (cases "n div 2 = 0")
    case True
    then have "n = 1" using less.prems by presburger
    then show ?thesis by (simp add: bit_length.simps)
  next
    case False
    have "0 < n div 2" using False less.prems by presburger
    moreover have "n div 2 < n" using less.prems by presburger
    ultimately have "nat (n div 2) < nat n" "0 < n div 2" using less.prems by simp_all
    then have ih: "2 ^ (bit_length (n div 2) - 1) \<le> n div 2" "n div 2 < 2 ^ bit_length (n div 2)"
      using less.hyps [of "n div 2"] by simp_all
    have pos: "0 < bit_length (n div 2)" using False by (subst bit_length.simps) simp
    have eq: "bit_length n = Suc (bit_length (n div 2))"
      using less.prems by (subst bit_length.simps) simp
    have "2 * 2 ^ (bit_length (n div 2) - 1) \<le> n" using ih(1) by presburger
    moreover have "2 * 2 ^ (bit_length (n div 2) - 1) = (2::int) ^ bit_length (n div 2)"
      using pos by (cases "bit_length (n div 2)") simp_all
    moreover have "n < 2 * 2 ^ bit_length (n div 2)" using ih(2) by presburger
    ultimately show ?thesis by (simp add: eq)
  qed
qed

lemma bit_length_le: assumes "0 < n" "n < 2 ^ k" shows "bit_length n \<le> k"
proof (rule ccontr)
  assume "\<not> bit_length n \<le> k"
  then have "k \<le> bit_length n - 1" by simp
  then have "(2::int) ^ k \<le> 2 ^ (bit_length n - 1)" by (rule power_increasing) simp
  moreover have "2 ^ (bit_length n - 1) \<le> n" using bit_length_bounds [OF assms(1)] by blast
  ultimately show False using assms(2) by linarith
qed

lemma round_half_even_cases:
  "round_half_even n d = n div d \<or> (round_half_even n d = n div d + 1 \<and> d \<le> 2 * (n mod d))"
  by (auto simp: round_half_even_def Let_def)

lemma truediv_trunc_exact:
  assumes "0 \<le> a" "a < 2 ^ 53" "0 < b"
  shows "truediv_trunc a b = Inr (a div b)"
proof (cases "a < b")
  case True
  have "\<not> (2 ^ 54 - 1) * b \<le> 2 ^ 54 * a"
    using True assms by simp
  then show ?thesis using True assms by (simp add: truediv_trunc_def div_pos_pos_trivial)
next
  case False
  define n where "n = a div b"
  define e where "e = bit_length n - 1"
  define K where "K = (2::int) ^ (52 - e)"
  have npos: "0 < n" using False assms(3) by (simp add: n_def pos_imp_zdiv_pos_iff)
  have nb: "n * b \<le> a" and an: "a < (n + 1) * b"
  proof -
    have "a = b * n + a mod b" by (simp add: n_def)
    moreover have "0 \<le> a mod b" "a mod b < b" using assms(3) by simp_all
    ultimately show "n * b \<le> a" "a < (n + 1) * b" by (simp_all add: algebra_simps)
  qed
  have "n * 1 \<le> n * b" using npos assms(3) by (intro mult_left_mono) simp_all
  then have "n < 2 ^ 53" using nb assms(2) by simp
  then have "bit_length n \<le> 53" by (rule bit_length_le [OF npos])
  then have e52: "e \<le> 52" by (simp add: e_def)
  have ne: "2 ^ e \<le> n" using bit_length_bounds [OF npos] by (simp add: e_def)
  have Kpos: "0 < K" by (simp add: K_def)
  have Ke: "2 ^ e * (2 * K) = (2::int) ^ 53"
  proof -
    have "2 ^ e * (2 * K) = (2::int) ^ (e + (1 + (52 - e)))"
      unfolding K_def power_add by simp
    also have "e + (1 + (52 - e)) = 53" using e52 by simp
    finally show ?thesis .
  qed
  define d where "d = (a * K) div b"
  define r where "r = (a * K) mod b"
  have aK: "a * K = d * b + r" by (simp add: d_def r_def)
  have dK: "d div K = n"
  proof -
    have "(a * K) div (b * K) = (a * K) div b div K"
      using Kpos by (intro zdiv_zmult2_eq) simp
    then show ?thesis using Kpos by (simp add: n_def d_def)
  qed
  have dm: "d = K * n + d mod K" using dK by (metis mult_div_mod_eq)
  have mb: "0 \<le> d mod K" "d mod K < K" using Kpos by simp_all
  have main: "round_half_even (a * K) b div K = n"
  proof (cases "d mod K + 1 = K")
    case False
    then have lt: "d mod K + 1 < K" using mb by simp
    have "d + 1 = K * n + (d mod K + 1)" using dm by simp
    then have up: "(d + 1) div K = n"
      using lt mb by (intro int_div_pos_eq [where r = "d mod K + 1"]) simp_all
    show ?thesis
      using round_half_even_cases [of "a * K" b] up dK by (auto simp: d_def)
  next
    case True
    then have sd: "d + 1 = (n + 1) * K" using dm by (simp add: algebra_simps)
    have "\<not> b \<le> 2 * r"
    proof
      assume half: "b \<le> 2 * r"
      have "a + 1 \<le> (n + 1) * b" using an by simp
      then have "(a + 1) * K \<le> (n + 1) * b * K"
        using Kpos by (intro mult_right_mono) simp_all
      also have "\<dots> = ((n + 1) * K) * b" by (simp add: algebra_simps)
      also have "\<dots> = (d + 1) * b" by (simp only: sd)
      finally have "a * K + K \<le> d * b + b" by (simp add: algebra_simps)
      then have "K + r \<le> b" using aK by simp
      then have "2 * K \<le> b" using half by simp
      then have "n * (2 * K) \<le> n * b" using npos by (intro mult_left_mono) simp_all
      moreover have "2 ^ e * (2 * K) \<le> n * (2 * K)"
        using ne Kpos by (intro mult_right_mono) simp_all
      ultimately have "(2::int) ^ 53 \<le> a" using Ke nb by linarith
      then show False using assms(2) by simp
    qed
    then have "round_half_even (a * K) b = d"
      using round_half_even_cases [of "a * K" b] by (auto simp: d_def r_def)
    then show ?thesis by (simp add: dK)
  qed
  show ?thesis
    using False e52 main by (simp add: truediv_trunc_def Let_def n_def e_def K_def)
qed

lemma int_truediv_exact:
  assumes "0 \<le> a" "a < 2 ^ 53" "0 < b"
  shows "int_truediv a b = Inr (a div b)"
  using truediv_trunc_exact [OF assms] assms
  by (cases "a = 0") (simp_all add: int_truediv_def)

subsection \<open>Marking cells\<close>

lemma mark_cell_ok: "grid_ok w h g \<Longrightarrow> grid_ok w h (mark_cell w h gx gy g)"
  by (auto simp: grid_ok_def mark_cell_def list_all_length nth_list_update)

lemma mark_cell_nth:
  assumes "grid_ok w h g" "y < nat h" "x < nat w"
  shows "mark_cell w h gx gy g ! y ! x = (if gx = int x \<and> gy = int y then 1 else g ! y ! x)"
proof -
  have len: "length g = nat h" "length (g ! y) = nat w"
    using assms by (simp_all add: grid_ok_def list_all_length)
  show ?thesis
    using assms len by (auto simp: mark_cell_def nth_list_update)
qed

lemma fold_mark_col_ok:
  "grid_ok w h g \<Longrightarrow> grid_ok w h (fold (\<lambda>gy g'. mark_cell w h gx gy g') ys g)"
  by (induction ys arbitrary: g) (simp_all add: mark_cell_ok)

lemma fold_mark_col_nth:
  assumes "grid_ok w h g" "y < nat h" "x < nat w"
  shows "fold (\<lambda>gy g'. mark_cell w h gx gy g') ys g ! y ! x =
            (if gx = int x \<and> int y \<in> set ys then 1 else g ! y ! x)"
  using assms(1)
proof (induction ys arbitrary: g)
  case Nil
  then show ?case by simp
next
  case (Cons a ys)
  have ok: "grid_ok w h (mark_cell w h gx a g)" using Cons.prems by (rule mark_cell_ok)
  have ih: "fold (\<lambda>gy g'. mark_cell w h gx gy g') ys (mark_cell w h gx a g) ! y ! x =
      (if gx = int x \<and> int y \<in> set ys then 1 else mark_cell w h gx a g ! y ! x)"
    by (rule Cons.IH [OF ok])
  have step: "\<And>u v. mark_cell w h u v g ! y ! x = (if u = int x \<and> v = int y then 1 else g ! y ! x)"
    by (rule mark_cell_nth [OF Cons.prems assms(2,3)])
  show ?case
    by (simp add: ih step) blast?
qed

lemma fold_mark_rows_ok:
  "grid_ok w h g \<Longrightarrow>
   grid_ok w h (fold (\<lambda>gx g. fold (\<lambda>gy g'. mark_cell w h gx gy g') ys g) xs g)"
  by (induction xs arbitrary: g) (simp_all add: fold_mark_col_ok)

lemma fold_mark_rows_nth:
  assumes "grid_ok w h g" "y < nat h" "x < nat w"
  shows "fold (\<lambda>gx g. fold (\<lambda>gy g'. mark_cell w h gx gy g') ys g) xs g ! y ! x =
            (if int x \<in> set xs \<and> int y \<in> set ys then 1 else g ! y ! x)"
  using assms(1)
proof (induction xs arbitrary: g)
  case Nil
  then show ?case by simp
next
  case (Cons a xs)
  let ?g = "fold (\<lambda>gy g'. mark_cell w h a gy g') ys g"
  have ok: "grid_ok w h ?g" using Cons.prems by (rule fold_mark_col_ok)
  have ih: "fold (\<lambda>gx g. fold (\<lambda>gy g'. mark_cell w h gx gy g') ys g) xs ?g ! y ! x =
      (if int x \<in> set xs \<and> int y \<in> set ys then 1 else ?g ! y ! x)"
    by (rule Cons.IH [OF ok])
  have step: "\<And>u. fold (\<lambda>gy g'. mark_cell w h u gy g') ys g ! y ! x =
      (if u = int x \<and> int y \<in> set ys then 1 else g ! y ! x)"
    by (rule fold_mark_col_nth [OF Cons.prems assms(2,3)])
  show ?case
    by (simp add: ih step) blast?
qed

lemma mark_rect_floor:
  assumes "0 < res" "0 \<le> x1" "x1 < 2 ^ 53" "0 \<le> y1" "y1 < 2 ^ 53"
    "0 \<le> x2" "x2 < 2 ^ 53" "0 \<le> y2" "y2 < 2 ^ 53"
  shows "mark_rect w h res (x1, y1, x2, y2) g =
           Inr (fold (\<lambda>gx g. fold (\<lambda>gy g'. mark_cell w h gx gy g')
                  [y1 div res..y2 div res] g) [x1 div res..x2 div res] g)"
  using assms by (simp add: int_truediv_exact)

lemma mark_rects_floor:
  assumes "0 < res"
    and "\<forall>(x1, y1, x2, y2) \<in> set obs.
           0 \<le> x1 \<and> x1 < 2 ^ 53 \<and> 0 \<le> y1 \<and> y1 < 2 ^ 53 \<and>
           0 \<le> x2 \<and> x2 < 2 ^ 53 \<and> 0 \<le> y2 \<and> y2 < 2 ^ 53"
    and "grid_ok w h g"
  shows "\<exists>g'. mark_rects w h res obs g = Inr g' \<and> grid_ok w h g'
           \<and> (\<forall>y < nat h. \<forall>x < nat w.
                 g' ! y ! x = (if spec_occupied res obs (int x) (int y) then 1 else g ! y ! x))"
  using assms(2,3)
proof (induction obs arbitrary: g)
  case Nil
  then show ?case by (simp add: spec_occupied_def)
next
  case (Cons r obs)
  obtain x1 y1 x2 y2 where r: "r = (x1, y1, x2, y2)" by (cases r) auto
  let ?g = "fold (\<lambda>gx g. fold (\<lambda>gy g'. mark_cell w h gx gy g')
                  [y1 div res..y2 div res] g) [x1 div res..x2 div res] g"
  have b: "0 \<le> x1" "x1 < 2 ^ 53" "0 \<le> y1" "y1 < 2 ^ 53"
    "0 \<le> x2" "x2 < 2 ^ 53" "0 \<le> y2" "y2 < 2 ^ 53"
    using Cons.prems(1) by (simp_all add: r)
  have one: "mark_rect w h res r g = Inr ?g"
    unfolding r by (rule mark_rect_floor [OF assms(1) b])
  have ok: "grid_ok w h ?g" using Cons.prems(2) by (rule fold_mark_rows_ok)
  have rest: "\<forall>(x1, y1, x2, y2) \<in> set obs.
           0 \<le> x1 \<and> x1 < 2 ^ 53 \<and> 0 \<le> y1 \<and> y1 < 2 ^ 53 \<and>
           0 \<le> x2 \<and> x2 < 2 ^ 53 \<and> 0 \<le> y2 \<and> y2 < 2 ^ 53"
    using Cons.prems(1) by simp
  obtain g' where g': "mark_rects w h res obs ?g = Inr g'" "grid_ok w h g'"
    "\<And>x y. y < nat h \<Longrightarrow> x < nat w \<Longrightarrow>
       g' ! y ! x = (if spec_occupied res obs (int x) (int y) then 1 else ?g ! y ! x)"
    using Cons.IH [OF rest ok] by blast
  have step: "?g ! y ! x = (if spec_covers res r (int x) (int y) then 1 else g ! y ! x)"
    if "y < nat h" "x < nat w" for x y
    using fold_mark_rows_nth [OF Cons.prems(2) that,
        of "[y1 div res..y2 div res]" "[x1 div res..x2 div res]"]
    by (simp add: r)
  have "g' ! y ! x = (if spec_occupied res (r # obs) (int x) (int y) then 1 else g ! y ! x)"
    if "y < nat h" "x < nat w" for x y
    using g'(3) [OF that] step [OF that] by (simp add: spec_occupied_def)
  then show ?case
    using one g'(1,2) by simp
qed

lemma replicate_grid_ok: "grid_ok w h (replicate (nat h) (replicate (nat w) 0))"
  by (simp add: grid_ok_def list_all_length)

subsection \<open>The exported grid\<close>

lemma fold_max_lines:
  "fold (\<lambda>((x1, y1), (x2, y2)) (mx, my). (max (max mx x1) x2, max (max my y1) y2)) ls (ax, ay) =
     (fold (\<lambda>x a. max a x) (concat (map (\<lambda>((x1, y1), (x2, y2)). [x1, x2]) ls)) ax,
      fold (\<lambda>x a. max a x) (concat (map (\<lambda>((x1, y1), (x2, y2)). [y1, y2]) ls)) ay)"
  by (induction ls arbitrary: ax ay) auto

lemma fold_max_nodes:
  "fold (\<lambda>(x, y) (mx, my). (max mx x, max my y)) ps (ax, ay) =
     (fold (\<lambda>x a. max a x) (map fst ps) ax, fold (\<lambda>x a. max a x) (map snd ps) ay)"
  by (induction ps arbitrary: ax ay) auto

lemma fold_max_rects:
  "fold (\<lambda>(x1, y1, x2, y2) (mx, my). (max (max mx x1) x2, max (max my y1) y2)) rs (ax, ay) =
     (fold (\<lambda>x a. max a x) (concat (map (\<lambda>(x1, y1, x2, y2). [x1, x2]) rs)) ax,
      fold (\<lambda>x a. max a x) (concat (map (\<lambda>(x1, y1, x2, y2). [y1, y2]) rs)) ay)"
  by (induction rs arbitrary: ax ay) auto

lemma fold_max_Max: "fold (\<lambda>x a. max a x) xs (a::int) = Max (insert a (set xs))"
proof (induction xs arbitrary: a)
  case Nil
  then show ?case by simp
next
  case (Cons x xs)
  have "Max (insert (max a x) (set xs)) = Max (insert a (insert x (set xs)))"
    by (cases "set xs = {}") (simp_all add: max.assoc)
  then show ?case using Cons.IH [of "max a x"] by simp
qed

lemma max_coords_eq:
  "max_coords m = (Max (insert 0 (set (all_xs m))), Max (insert 0 (set (all_ys m))))"
proof -
  have "max_coords m =
      (fold (\<lambda>x a. max a x) (all_xs m) 0, fold (\<lambda>x a. max a x) (all_ys m) 0)"
    by (simp add: max_coords_def all_xs_def all_ys_def fold_max_lines fold_max_nodes
        fold_max_rects)
  then show ?thesis by (simp add: fold_max_Max)
qed

lemma Max_insert_below:
  assumes "\<forall>c \<in> set xs. c < (b::int)" "0 < b"
  shows "0 \<le> Max (insert 0 (set xs))" "Max (insert 0 (set xs)) < b"
  using assms by simp_all

lemma obstacle_coords:
  assumes "(x1, y1, x2, y2) \<in> set (obstacles m)"
  shows "x1 \<in> set (all_xs m)" "x2 \<in> set (all_xs m)"
    "y1 \<in> set (all_ys m)" "y2 \<in> set (all_ys m)"
  using assms by (force simp: all_xs_def all_ys_def)+

lemma export_occupancy_grid_shape:
  assumes "0 < resolution"
    and "list_all (\<lambda>c. c < 2 ^ 53) (all_xs m @ all_ys m)"
    and "list_all nonneg_rect (obstacles m)"
  shows "\<exists>g. export_occupancy_grid m resolution = Inr g
           \<and> length g = nat (Max (insert 0 (set (all_ys m))) div resolution) + 1
           \<and> (\<forall>y < length g.
                 length (g ! y) = nat (Max (insert 0 (set (all_xs m))) div resolution) + 1
                 \<and> (\<forall>x < length (g ! y).
                       g ! y ! x = (if spec_occupied resolution (obstacles m) (int x) (int y)
                                    then 1 else 0)))"
proof -
  let ?mx = "Max (insert 0 (set (all_xs m)))" and ?my = "Max (insert 0 (set (all_ys m)))"
  let ?w = "?mx div resolution + 1" and ?h = "?my div resolution + 1"
  let ?init = "replicate (nat ?h) (replicate (nat ?w) (0::int))"
  have bx: "\<forall>c \<in> set (all_xs m). c < 2 ^ 53" and by': "\<forall>c \<in> set (all_ys m). c < 2 ^ 53"
    using assms(2) by (simp_all add: list_all_iff)
  have mx: "0 \<le> ?mx" "?mx < 2 ^ 53" by (rule Max_insert_below [OF bx], simp)+
  have my: "0 \<le> ?my" "?my < 2 ^ 53" by (rule Max_insert_below [OF by'], simp)+
  have dw: "int_truediv ?mx resolution = Inr (?mx div resolution)"
    by (rule int_truediv_exact [OF mx assms(1)])
  have dh: "int_truediv ?my resolution = Inr (?my div resolution)"
    by (rule int_truediv_exact [OF my assms(1)])
  have wpos: "0 \<le> ?mx div resolution" and hpos: "0 \<le> ?my div resolution"
    using assms(1) by (simp_all add: pos_imp_zdiv_nonneg_iff)
  have natw: "nat ?w = nat (?mx div resolution) + 1"
    and nath: "nat ?h = nat (?my div resolution) + 1"
    using wpos hpos by (simp_all add: nat_add_distrib)
  have obs: "\<forall>(x1, y1, x2, y2) \<in> set (obstacles m).
           0 \<le> x1 \<and> x1 < 2 ^ 53 \<and> 0 \<le> y1 \<and> y1 < 2 ^ 53 \<and>
           0 \<le> x2 \<and> x2 < 2 ^ 53 \<and> 0 \<le> y2 \<and> y2 < 2 ^ 53"
  proof (clarify, intro conjI)
    fix x1 y1 x2 y2 assume mem: "(x1, y1, x2, y2) \<in> set (obstacles m)"
    then have "nonneg_rect (x1, y1, x2, y2)" using assms(3) by (auto simp: list_all_iff)
    then show "0 \<le> x1" "0 \<le> y1" "0 \<le> x2" "0 \<le> y2" by simp_all
    show "x1 < 2 ^ 53" "x2 < 2 ^ 53" using obstacle_coords(1,2) [OF mem] bx by blast+
    show "y1 < 2 ^ 53" "y2 < 2 ^ 53" using obstacle_coords(3,4) [OF mem] by' by blast+
  qed
  have ok0: "grid_ok ?w ?h ?init" by (rule replicate_grid_ok)
  obtain g where g: "mark_rects ?w ?h resolution (obstacles m) ?init = Inr g" "grid_ok ?w ?h g"
    "\<And>x y. y < nat ?h \<Longrightarrow> x < nat ?w \<Longrightarrow>
       g ! y ! x = (if spec_occupied resolution (obstacles m) (int x) (int y) then 1
                    else ?init ! y ! x)"
    using mark_rects_floor [OF assms(1) obs ok0] by blast
  have res: "export_occupancy_grid m resolution = Inr g"
    using g(1) by (simp add: export_occupancy_grid_def max_coords_eq dw dh)
  have len: "length g = nat ?h" using g(2) by (simp add: grid_ok_def)
  have row: "length (g ! y) = nat ?w" if "y < nat ?h" for y
    using g(2) that by (simp add: grid_ok_def list_all_length)
  have cell: "g ! y ! x = (if spec_occupied resolution (obstacles m) (int x) (int y) then 1 else 0)"
    if "y < nat ?h" "x < nat ?w" for x y
    using g(3) [OF that] that by simp
  have "length g = nat (?my div resolution) + 1"
    using len nath by simp
  moreover have "\<forall>y < length g. length (g ! y) = nat (?mx div resolution) + 1
                 \<and> (\<forall>x < length (g ! y).
                       g ! y ! x = (if spec_occupied resolution (obstacles m) (int x) (int y)
                                    then 1 else 0))"
    using len row cell natw by simp
  ultimately show ?thesis
    using res by blast
qed




text \<open>
  C2, as the code has it. For every map whose only obstacle is \<open>(0, 0, 80, 80)\<close> and whose
  coordinates are below \<open>2\<^sup>5\<^sup>3\<close>, the grid exported at resolution 40 is at least 3 by 3
  cells, and its cell \<open>(x, y)\<close> is 1 exactly when \<open>x \<le> 2\<close> and \<open>y \<le> 2\<close>: the range of
  marked cells includes \<open>80 / 40 = 2\<close>.
\<close>

theorem export_occupancy_grid_example:
  assumes "obstacles m = [(0, 0, 80, 80)]"
    and "list_all (\<lambda>c. c < 2 ^ 53) (all_xs m @ all_ys m)"
  shows "\<exists>g. export_occupancy_grid m 40 = Inr g \<and> 3 \<le> length g
           \<and> (\<forall>y < length g. 3 \<le> length (g ! y)
                 \<and> (\<forall>x < length (g ! y). g ! y ! x = (if x \<le> 2 \<and> y \<le> 2 then 1 else 0)))"
proof -
  let ?mx = "Max (insert 0 (set (all_xs m)))" and ?my = "Max (insert 0 (set (all_ys m)))"
  have h: "(0::int) < 40" by simp
  have n: "list_all nonneg_rect (obstacles m)" by (simp add: assms(1))
  obtain g where g: "export_occupancy_grid m 40 = Inr g"
    "length g = nat (?my div 40) + 1"
    "\<And>y. y < length g \<Longrightarrow> length (g ! y) = nat (?mx div 40) + 1"
    "\<And>x y. y < length g \<Longrightarrow> x < length (g ! y) \<Longrightarrow>
        g ! y ! x = (if spec_occupied 40 (obstacles m) (int x) (int y) then 1 else 0)"
    using export_occupancy_grid_shape [OF h assms(2) n] by blast
  have "80 \<in> set (all_xs m)" "80 \<in> set (all_ys m)"
    using assms(1) by (simp_all add: all_xs_def all_ys_def)
  then have "80 \<le> ?mx" "80 \<le> ?my"
    by (simp_all add: Max_ge)
  then have "80 div 40 \<le> ?mx div 40" "80 div 40 \<le> ?my div 40"
    by (simp_all only: zdiv_mono1 h)
  then have big: "2 \<le> nat (?mx div 40)" "2 \<le> nat (?my div 40)"
    by simp_all
  have occ: "spec_occupied 40 (obstacles m) (int x) (int y) \<longleftrightarrow> x \<le> 2 \<and> y \<le> 2" for x y
    unfolding assms(1) by (simp add: spec_occupied_def)
  show ?thesis
    using g big by (auto simp: occ)
qed

theorem export_occupancy_grid_example_witness:
  "obstacles
     \<lparr>layers = JList [], lines = [], line_meta = [], nodes = [(120, 40)], node_meta = [],
      obstacles = [(0, 0, 80, 80)], obstacle_meta = [], agents = []\<rparr> = [(0, 0, 80, 80)]
   \<and> list_all (\<lambda>c. c < 2 ^ 53)
        (all_xs \<lparr>layers = JList [], lines = [], line_meta = [], nodes = [(120, 40)],
           node_meta = [], obstacles = [(0, 0, 80, 80)], obstacle_meta = [], agents = []\<rparr>
         @ all_ys \<lparr>layers = JList [], lines = [], line_meta = [], nodes = [(120, 40)],
           node_meta = [], obstacles = [(0, 0, 80, 80)], obstacle_meta = [], agents = []\<rparr>)
   \<and> export_occupancy_grid
     \<lparr>layers = JList [], lines = [], line_meta = [], nodes = [(120, 40)], node_meta = [],
      obstacles = [(0, 0, 80, 80)], obstacle_meta = [], agents = []\<rparr> 40
     = Inr [[1, 1, 1, 0], [1, 1, 1, 0], [1, 1, 1, 0]]"
proof -
  let ?m = "\<lparr>layers = JList [], lines = [], line_meta = [], nodes = [(120, 40)],
      node_meta = [], obstacles = [(0, 0, 80, 80)], obstacle_meta = [], agents = []\<rparr>"
  have h: "obstacles ?m = [(0, 0, 80, 80)]" by simp
  have b: "list_all (\<lambda>c. c < 2 ^ 53) (all_xs ?m @ all_ys ?m)"
    by (simp add: all_xs_def all_ys_def)
  obtain g where g: "export_occupancy_grid ?m 40 = Inr g"
    using export_occupancy_grid_example [OF h b] by blast
  have "export_occupancy_grid ?m 40 = Inr [[1, 1, 1, 0], [1, 1, 1, 0], [1, 1, 1, 0]]"
    by code_simp
  then show ?thesis using g h b by simp
qed

text \<open>
  With no other geometry the grid is 3 by 3 and all nine cells are marked, not only the
  four cells \<open>(0,0)\<close>, \<open>(1,0)\<close>, \<open>(0,1)\<close>, \<open>(1,1)\<close>.
\<close>

theorem export_occupancy_grid_example_counterexample:
  "export_occupancy_grid
     \<lparr>layers = JList [], lines = [], line_meta = [], nodes = [], node_meta = [],
      obstacles = [(0, 0, 80, 80)], obstacle_meta = [], agents = []\<rparr> 40
   = Inr [[1, 1, 1], [1, 1, 1], [1, 1, 1]]"
  by code_simp
section \<open>Connectivity graph: properties\<close>

lemma manhattan_sym: "manhattan u v = manhattan v u"
  by (cases u; cases v) simp

lemma add_node_nodes: "set (g_nodes (add_node u g)) = insert u (set (g_nodes g))"
  by (auto simp: add_node_def)

lemma add_node_distinct: "distinct (g_nodes g) \<Longrightarrow> distinct (g_nodes (add_node u g))"
  by (simp add: add_node_def)

lemma add_node_adj: "g_adj (add_node u g) = g_adj g"
  by (simp add: add_node_def)

lemma add_node_present: "u \<in> set (g_nodes g) \<Longrightarrow> add_node u g = g"
  by (simp add: add_node_def)

lemma add_edge_nodes: "set (g_nodes (add_edge u v w g)) = insert u (insert v (set (g_nodes g)))"
  by (auto simp: add_edge_def Let_def add_node_nodes)

lemma add_edge_distinct: "distinct (g_nodes g) \<Longrightarrow> distinct (g_nodes (add_edge u v w g))"
  by (simp add: add_edge_def Let_def add_node_distinct)

lemma add_edge_adj_fun:
  "g_adj (add_edge u v w g) = (g_adj g)((u, v) \<mapsto> Some w, (v, u) \<mapsto> Some w)"
  by (simp add: add_edge_def Let_def add_node_adj)

lemma add_edge_adj_at:
  "g_adj (add_edge u v w g) e =
     (if e = (u, v) \<or> e = (v, u) then Some (Some w) else g_adj g e)"
proof -
  consider "e = (v, u)" | "e \<noteq> (v, u)" "e = (u, v)" | "e \<noteq> (v, u)" "e \<noteq> (u, v)"
    by blast
  then show ?thesis
  proof cases
    case 1
    then show ?thesis
      unfolding add_edge_adj_fun by (simp only: fun_upd_same simp_thms if_True)
  next
    case 2
    then show ?thesis
      unfolding add_edge_adj_fun by (simp only: fun_upd_apply simp_thms if_True if_False)
  next
    case 3
    then show ?thesis
      unfolding add_edge_adj_fun by (simp only: fun_upd_apply simp_thms if_False)
  qed
qed

lemma add_edge_adj:
  "g_adj (add_edge u v w g) (a, b) =
     (if (a, b) = (u, v) \<or> (a, b) = (v, u) then Some (Some w) else g_adj g (a, b))"
  by (rule add_edge_adj_at)

lemma graph_ok_nodes:
  "graph_ok g \<Longrightarrow> g_adj g (a, b) = Some d \<Longrightarrow> a \<in> set (g_nodes g) \<and> b \<in> set (g_nodes g)"
  unfolding graph_ok_def by blast

lemma graph_ok_sym: "graph_ok g \<Longrightarrow> g_adj g (a, b) = g_adj g (b, a)"
  unfolding graph_ok_def by blast

lemma add_edge_ok:
  assumes "graph_ok g"
  shows "graph_ok (add_edge u v w g)"
proof -
  let ?g = "add_edge u v w g"
  have "distinct (g_nodes ?g)"
    using assms by (simp add: graph_ok_def add_edge_distinct)
  moreover have "a \<in> set (g_nodes ?g) \<and> b \<in> set (g_nodes ?g)" if "g_adj ?g (a, b) \<noteq> None" for a b
  proof (cases "(a, b) = (u, v) \<or> (a, b) = (v, u)")
    case True
    then show ?thesis by (auto simp: add_edge_nodes)
  next
    case False
    then have "g_adj g (a, b) \<noteq> None" using that by (auto simp: add_edge_adj split: if_splits)
    then show ?thesis using graph_ok_nodes [OF assms, of a b] by (auto simp: add_edge_nodes)
  qed
  moreover have "g_adj ?g (a, b) = g_adj ?g (b, a)" for a b
    using graph_ok_sym [OF assms, of a b] by (auto simp: add_edge_adj)
  ultimately show ?thesis
    unfolding graph_ok_def by blast
qed

lemma empty_graph_ok: "graph_ok empty_graph"
  by (simp add: graph_ok_def empty_graph_def)

lemma fold_step_ok: "graph_ok g \<Longrightarrow> graph_ok (fold add_line ls g)"
  by (induction ls arbitrary: g) (auto simp: add_edge_ok)

lemma fold_step_nodes:
  "set (g_nodes (fold add_line ls g)) = set (g_nodes g) \<union> fst ` set ls \<union> snd ` set ls"
  by (induction ls arbitrary: g) (auto simp: add_edge_nodes)

lemma fold_step_adj:
  "g_adj (fold add_line ls g) (a, b) =
     (if (a, b) \<in> set ls \<or> (b, a) \<in> set ls then Some (Some (manhattan a b)) else g_adj g (a, b))"
proof (induction ls arbitrary: g)
  case Nil
  then show ?case by simp
next
  case (Cons l ls)
  obtain u v where l: "l = (u, v)" by (cases l)
  have m: "manhattan v u = manhattan u v" by (rule manhattan_sym)
  show ?case
    using Cons.IH [of "add_edge u v (manhattan u v) g"]
    by (auto simp: l add_edge_adj m)
qed

lemma lines_to_graph_ok: "graph_ok (lines_to_graph ls)"
  by (simp add: lines_to_graph_def fold_step_ok empty_graph_ok)

lemma lines_to_graph_nodes:
  "set (g_nodes (lines_to_graph ls)) = fst ` set ls \<union> snd ` set ls"
  by (simp add: lines_to_graph_def fold_step_nodes empty_graph_def)

lemma lines_to_graph_adj:
  "g_adj (lines_to_graph ls) (a, b) =
     (if (a, b) \<in> set ls \<or> (b, a) \<in> set ls then Some (Some (manhattan a b)) else None)"
  by (simp add: lines_to_graph_def fold_step_adj empty_graph_def)

lemma add_edge_again:
  assumes "u \<in> set (g_nodes g)" "v \<in> set (g_nodes g)"
    "g_adj g (u, v) = Some (Some w)" "g_adj g (v, u) = Some (Some w)"
  shows "add_edge u v w g = g"
proof -
  have "(g_adj g)((u, v) \<mapsto> Some w, (v, u) \<mapsto> Some w) = g_adj g"
    using assms(3,4) by (auto simp: fun_eq_iff)
  then show ?thesis
    using assms(1,2) by (simp add: add_edge_def Let_def add_node_present)
qed

lemma lines_to_graph_append:
  "lines_to_graph (xs @ ys) = fold add_line ys (lines_to_graph xs)"
  by (simp add: lines_to_graph_def)

lemma duplicate_dropped:
  assumes "same_pair l l'"
  shows "lines_to_graph (xs @ l # ys @ l' # zs) = lines_to_graph (xs @ l # ys @ zs)"
proof -
  let ?g = "lines_to_graph (xs @ l # ys)"
  obtain u v where l: "l = (u, v)" by (cases l)
  obtain u' v' where l': "l' = (u', v')" by (cases l')
  have pair: "(u', v') = (u, v) \<or> (u', v') = (v, u)"
    using assms by (simp add: same_pair_def l l')
  have nodes: "u' \<in> set (g_nodes ?g)" "v' \<in> set (g_nodes ?g)"
    using pair by (auto simp: lines_to_graph_nodes l)
  have adj: "g_adj ?g (u', v') = Some (Some (manhattan u' v'))"
    "g_adj ?g (v', u') = Some (Some (manhattan u' v'))"
    using pair by (auto simp: lines_to_graph_adj l intro: manhattan_sym)
  have same: "add_line l' ?g = ?g"
    using add_edge_again [OF nodes adj] by (simp add: l')
  have "lines_to_graph (xs @ l # ys @ l' # zs) = fold add_line zs (add_line l' ?g)"
    using lines_to_graph_append [of "xs @ l # ys" "l' # zs"] by simp
  also have "\<dots> = fold add_line zs ?g" by (simp only: same)
  also have "\<dots> = lines_to_graph (xs @ l # ys @ zs)"
    using lines_to_graph_append [of "xs @ l # ys" zs] by simp
  finally show ?thesis .
qed

lemma in_map_filter: "e \<in> set (map f (filter P xs)) \<longleftrightarrow> (\<exists>x. x \<in> set xs \<and> P x \<and> e = f x)"
  by auto

lemma in_edges_from_Cons:
  "e \<in> set (edges_from g (n # rest)) \<longleftrightarrow>
     (\<exists>nbr d. e = (n, nbr, d) \<and> nbr \<in> set (n # rest) \<and> g_adj g (n, nbr) = Some d)
     \<or> e \<in> set (edges_from g rest)"
proof -
  have "(g_adj g (n, x) \<noteq> None \<and> e = (n, x, the (g_adj g (n, x)))) \<longleftrightarrow>
        (\<exists>d. e = (n, x, d) \<and> g_adj g (n, x) = Some d)" for x
    by (cases "g_adj g (n, x)") simp_all
  then have "(\<exists>x. x \<in> set (n # rest) \<and> g_adj g (n, x) \<noteq> None \<and> e = (n, x, the (g_adj g (n, x))))
      \<longleftrightarrow> (\<exists>nbr d. e = (n, nbr, d) \<and> nbr \<in> set (n # rest) \<and> g_adj g (n, nbr) = Some d)"
    by blast
  then show ?thesis
    by (simp only: edges_from.simps set_append Un_iff in_map_filter)
qed

lemma edges_from_adj:
  "e \<in> set (edges_from g ns) \<Longrightarrow>
     g_adj g (fst e, fst (snd e)) = Some (snd (snd e)) \<and> fst e \<in> set ns \<and> fst (snd e) \<in> set ns"
proof (induction ns)
  case Nil
  then show ?case by simp
next
  case (Cons n rest)
  from Cons.prems consider
    (new) nbr d where "e = (n, nbr, d)" "nbr \<in> set (n # rest)" "g_adj g (n, nbr) = Some d"
    | (old) "e \<in> set (edges_from g rest)"
    unfolding in_edges_from_Cons by blast
  then show ?case
  proof cases
    case new
    then show ?thesis by simp
  next
    case old
    then show ?thesis using Cons.IH by simp
  qed
qed

lemma edges_from_complete:
  assumes "\<And>a b. g_adj g (a, b) = g_adj g (b, a)" "g_adj g (u, v) = Some d"
    "u \<in> set ns" "v \<in> set ns"
  shows "(u, v, d) \<in> set (edges_from g ns) \<or> (v, u, d) \<in> set (edges_from g ns)"
  using assms(3,4)
proof (induction ns)
  case Nil
  then show ?case by simp
next
  case (Cons n rest)
  have vu: "g_adj g (v, u) = Some d" using assms(1,2) by simp
  consider "u = n" | "v = n" | "u \<in> set rest" "v \<in> set rest"
    using Cons.prems by auto
  then show ?case
  proof cases
    case 1
    then have "(u, v, d) \<in> set (edges_from g (n # rest))"
      unfolding in_edges_from_Cons using Cons.prems(2) assms(2) by blast
    then show ?thesis by blast
  next
    case 2
    then have "(v, u, d) \<in> set (edges_from g (n # rest))"
      unfolding in_edges_from_Cons using Cons.prems(1) vu by blast
    then show ?thesis by blast
  next
    case 3
    then have "(u, v, d) \<in> set (edges_from g rest) \<or> (v, u, d) \<in> set (edges_from g rest)"
      by (rule Cons.IH)
    then show ?thesis unfolding in_edges_from_Cons by blast
  qed
qed

lemma edges_from_distinct:
  "distinct ns \<Longrightarrow> distinct (map edge_pair (edges_from g ns))"
proof (induction ns)
  case Nil
  then show ?case by simp
next
  case (Cons n rest)
  let ?f = "\<lambda>nbr. (n, nbr, the (g_adj g (n, nbr)))"
  let ?first = "map ?f (filter (\<lambda>nbr. g_adj g (n, nbr) \<noteq> None) (n # rest))"
  have inj: "inj_on (edge_pair \<circ> ?f) (set (n # rest))"
    unfolding inj_on_def edge_pair_def comp_def by (simp add: doubleton_eq_iff) 
  have "distinct (map (edge_pair \<circ> ?f) (n # rest))"
    using Cons.prems inj by (simp only: distinct_map)
  then have "distinct (map (edge_pair \<circ> ?f) (filter (\<lambda>nbr. g_adj g (n, nbr) \<noteq> None) (n # rest)))"
    by (rule distinct_map_filter)
  then have d1: "distinct (map edge_pair ?first)"
    by (simp only: map_map)
  have in1: "n \<in> edge_pair e" if mem: "e \<in> set ?first" for e
  proof -
    obtain x where "e = ?f x" using mem unfolding in_map_filter by blast
    then show ?thesis by (simp add: edge_pair_def)
  qed
  have in2: "n \<notin> edge_pair e" if "e \<in> set (edges_from g rest)" for e
  proof -
    have "fst e \<in> set rest" "fst (snd e) \<in> set rest" using edges_from_adj [OF that] by simp_all
    then show ?thesis using Cons.prems by (auto simp: edge_pair_def)
  qed
  have disj: "set (map edge_pair ?first) \<inter> set (map edge_pair (edges_from g rest)) = {}"
  proof (rule ccontr)
    assume "set (map edge_pair ?first) \<inter> set (map edge_pair (edges_from g rest)) \<noteq> {}"
    then obtain p where "p \<in> set (map edge_pair ?first)" "p \<in> set (map edge_pair (edges_from g rest))"
      by blast
    then obtain e1 e2 where "e1 \<in> set ?first" "p = edge_pair e1"
      "e2 \<in> set (edges_from g rest)" "p = edge_pair e2"
      unfolding set_map by blast
    then show False using in1 [of e1] in2 [of e2] by simp
  qed
  have rest: "distinct (map edge_pair (edges_from g rest))"
    using Cons.IH Cons.prems by simp
  show ?case
    unfolding edges_from.simps map_append distinct_append using d1 rest disj by blast
qed

lemma graph_edges_adj:
  "(u, v, d) \<in> set (graph_edges g) \<Longrightarrow> g_adj g (u, v) = Some d"
  unfolding graph_edges_def using edges_from_adj [of "(u, v, d)" g "g_nodes g"] by simp

lemma graph_edges_complete:
  assumes "graph_ok g" "g_adj g (u, v) = Some d"
  shows "(u, v, d) \<in> set (graph_edges g) \<or> (v, u, d) \<in> set (graph_edges g)"
  unfolding graph_edges_def
  using edges_from_complete [of g u v d "g_nodes g"] graph_ok_sym [OF assms(1)]
    graph_ok_nodes [OF assms] assms(2) by blast

lemma graph_edges_distinct: "graph_ok g \<Longrightarrow> distinct (map edge_pair (graph_edges g))"
  unfolding graph_edges_def by (rule edges_from_distinct) (simp add: graph_ok_def)

lemma lines_to_graph_edge_pairs:
  "edge_pair ` set (graph_edges (lines_to_graph ls)) = line_pair ` set ls"
proof (intro equalityI subsetI)
  fix p assume "p \<in> edge_pair ` set (graph_edges (lines_to_graph ls))"
  then obtain u v d where e: "(u, v, d) \<in> set (graph_edges (lines_to_graph ls))" "p = {u, v}"
    by (auto simp: edge_pair_def)
  then have "g_adj (lines_to_graph ls) (u, v) = Some d" by (simp add: graph_edges_adj)
  then have "(u, v) \<in> set ls \<or> (v, u) \<in> set ls"
    by (simp add: lines_to_graph_adj split: if_splits)
  then show "p \<in> line_pair ` set ls"
    unfolding e(2) by (force simp: line_pair_def image_iff doubleton_eq_iff)
next
  fix p assume "p \<in> line_pair ` set ls"
  then obtain u v where l: "(u, v) \<in> set ls" "p = {u, v}"
    by (auto simp: line_pair_def)
  then have "g_adj (lines_to_graph ls) (u, v) = Some (Some (manhattan u v))"
    by (simp add: lines_to_graph_adj)
  then have "(u, v, Some (manhattan u v)) \<in> set (graph_edges (lines_to_graph ls))
      \<or> (v, u, Some (manhattan u v)) \<in> set (graph_edges (lines_to_graph ls))"
    by (rule graph_edges_complete [OF lines_to_graph_ok])
  then show "p \<in> edge_pair ` set (graph_edges (lines_to_graph ls))"
    unfolding l(2) by (force simp: edge_pair_def image_iff doubleton_eq_iff)
qed

text \<open>
  C3. The nodes of the graph built from a list of segments are exactly the segment
  endpoints, each listed once. Two coordinates are joined exactly when a segment of the
  list has them as its endpoints, in either order, and the weight of the edge is their
  Manhattan distance. The edge view reports one edge for every unordered endpoint pair
  of the list and no pair twice. A segment that repeats the endpoint pair of an earlier
  one, in either direction, changes nothing: the graph is the one built without it.
\<close>

theorem lines_to_graph_contract:
  "set (g_nodes (lines_to_graph ls)) = fst ` set ls \<union> snd ` set ls
   \<and> distinct (g_nodes (lines_to_graph ls))
   \<and> g_adj (lines_to_graph ls) (u, v) =
       (if (u, v) \<in> set ls \<or> (v, u) \<in> set ls then Some (Some (manhattan u v)) else None)
   \<and> edge_pair ` set (graph_edges (lines_to_graph ls)) = line_pair ` set ls
   \<and> distinct (map edge_pair (graph_edges (lines_to_graph ls)))
   \<and> (\<forall>e \<in> set (graph_edges (lines_to_graph ls)).
         snd (snd e) = Some (manhattan (fst e) (fst (snd e))))
   \<and> (same_pair l l' \<longrightarrow>
         lines_to_graph (xs @ l # ys @ l' # zs) = lines_to_graph (xs @ l # ys @ zs))"
proof -
  have ok: "graph_ok (lines_to_graph ls)" by (rule lines_to_graph_ok)
  have w: "snd (snd e) = Some (manhattan (fst e) (fst (snd e)))"
    if mem: "e \<in> set (graph_edges (lines_to_graph ls))" for e
  proof -
    have "g_adj (lines_to_graph ls) (fst e, fst (snd e)) = Some (snd (snd e))"
      using graph_edges_adj [of "fst e" "fst (snd e)" "snd (snd e)"] mem by simp
    then show ?thesis
      by (simp add: lines_to_graph_adj split: if_splits)
  qed
  show ?thesis
    using lines_to_graph_nodes [of ls] ok lines_to_graph_adj [of ls u v]
      lines_to_graph_edge_pairs [of ls] graph_edges_distinct [OF ok] w
      duplicate_dropped [of l l' xs ys zs]
    unfolding graph_ok_def by blast
qed

theorem lines_to_graph_contract_witness:
  "same_pair ((0, 0), (1, 0)) ((0, 0), (1, 0))
   \<and> lines_to_graph [((0, 0), (1, 0)), ((0, 0), (1, 0))] = lines_to_graph [((0, 0), (1, 0))]
   \<and> g_nodes (lines_to_graph [((0, 0), (1, 0))]) = [(0, 0), (1, 0)]
   \<and> graph_edges (lines_to_graph [((0, 0), (1, 0))]) = [((0, 0), (1, 0), Some 1)]
   \<and> g_adj (lines_to_graph [((0, 0), (3, 4))]) ((0, 0), (3, 4)) = Some (Some 7)"
proof -
  have h: "same_pair ((0, 0), (1, 0)) ((0, 0), (1, 0))"
    by (simp add: same_pair_def)
  have "lines_to_graph [((0, 0), (1, 0)), ((0, 0), (1, 0))] = lines_to_graph [((0, 0), (1, 0))]"
    using lines_to_graph_contract
      [where l = "((0, 0), (1, 0))" and l' = "((0, 0), (1, 0))" and xs = "[]" and ys = "[]"
         and zs = "[]"] h
    by simp
  moreover have "g_adj (lines_to_graph [((0, 0), (3, 4))]) ((0, 0), (3, 4)) = Some (Some 7)"
    using lines_to_graph_contract [where ls = "[((0, 0), (3, 4))]" and u = "(0, 0)" and v = "(3, 4)"]
    by simp
  moreover have "g_nodes (lines_to_graph [((0, 0), (1, 0))]) = [(0, 0), (1, 0)]"
    by (simp add: lines_to_graph_def add_edge_def add_node_def empty_graph_def)
  moreover have "graph_edges (lines_to_graph [((0, 0), (1, 0))]) = [((0, 0), (1, 0), Some 1)]"
    by (simp add: graph_edges_def lines_to_graph_def add_edge_def add_node_def empty_graph_def)
  ultimately show ?thesis using h by simp
qed

section \<open>k shortest paths: properties\<close>

lemma path_pairs_simps:
  "path_pairs [] = []" "path_pairs [u] = []"
  "path_pairs (u # v # p) = (u, v) # path_pairs (v # p)"
  by (simp_all add: path_pairs_def)

lemma distinct_concat_map:
  assumes "distinct vs" "\<And>v. v \<in> set vs \<Longrightarrow> distinct (f v)"
    "\<And>v w. v \<in> set vs \<Longrightarrow> w \<in> set vs \<Longrightarrow> v \<noteq> w \<Longrightarrow> set (f v) \<inter> set (f w) = {}"
  shows "distinct (concat (map f vs))"
  using assms
proof (induction vs)
  case Nil
  then show ?case by simp
next
  case (Cons v vs)
  have "distinct (concat (map f vs))"
    using Cons.prems by (intro Cons.IH) auto
  moreover have "distinct (f v)" using Cons.prems(2) by simp
  moreover have "set (f v) \<inter> set (f w) = {}" if "w \<in> set vs" for w
    using Cons.prems(1) Cons.prems(3) [of v w] that by auto
  ultimately show ?case by auto
qed

lemma walk_ok_Cons:
  "q \<noteq> [] \<Longrightarrow> walk_ok g (u # q) \<longleftrightarrow> g_adj g (u, hd q) \<noteq> None \<and> walk_ok g q"
  by (cases q) (simp_all add: walk_ok_def path_pairs_simps)

lemma paths_from_step:
  assumes "u \<noteq> t"
  shows "p \<in> set (paths_from (Suc n) g vis u t) \<longleftrightarrow>
     (\<exists>v q. p = u # q \<and> v \<in> set (g_nodes g) \<and> v \<notin> set (u # vis) \<and> g_adj g (u, v) \<noteq> None
            \<and> q \<in> set (paths_from n g (u # vis) v t))"
  using assms by (simp del: set_simps) (auto simp del: set_simps)

lemma paths_from_sound:
  "p \<in> set (paths_from n g vis u t) \<Longrightarrow>
     p \<noteq> [] \<and> hd p = u \<and> last p = t \<and> distinct p \<and> set (tl p) \<inter> set (u # vis) = {}
     \<and> set (tl p) \<subseteq> set (g_nodes g) \<and> walk_ok g p"
proof (induction n arbitrary: vis u p)
  case 0
  then show ?case by (auto simp: walk_ok_def path_pairs_simps split: if_splits)
next
  case (Suc n)
  show ?case
  proof (cases "u = t")
    case True
    then show ?thesis using Suc.prems by (auto simp: walk_ok_def path_pairs_simps)
  next
    case False
    then obtain v q where vq: "p = u # q" "v \<in> set (g_nodes g)" "v \<notin> set (u # vis)"
      "g_adj g (u, v) \<noteq> None" "q \<in> set (paths_from n g (u # vis) v t)"
      using Suc.prems unfolding paths_from_step [OF False] by blast
    have ih: "q \<noteq> []" "hd q = v" "last q = t" "distinct q"
      "set (tl q) \<inter> set (v # u # vis) = {}" "set (tl q) \<subseteq> set (g_nodes g)" "walk_ok g q"
      using Suc.IH [OF vq(5)] by simp_all
    have q: "set q = insert v (set (tl q))"
      using ih(1,2) by (cases q) auto
    have "u \<notin> set q" using q vq(3) ih(5) by auto
    moreover have "set q \<inter> set (u # vis) = {}" using q vq(3) ih(5) by auto
    moreover have "set q \<subseteq> set (g_nodes g)" using q vq(2) ih(6) by auto
    moreover have "walk_ok g (u # q)" using walk_ok_Cons [OF ih(1)] ih(2,7) vq(4) by simp
    ultimately show ?thesis
      using ih(1,3,4) by (simp add: vq(1))
  qed
qed

lemma paths_from_complete:
  assumes "p \<noteq> []" "hd p = u" "last p = t" "distinct p" "set (tl p) \<inter> set vis = {}"
    "set (tl p) \<subseteq> set (g_nodes g)" "walk_ok g p" "length p \<le> Suc n"
  shows "p \<in> set (paths_from n g vis u t)"
  using assms
proof (induction n arbitrary: vis u p)
  case 0
  then have "p = [u]" by (cases p) auto
  then show ?case using "0.prems"(3) by simp
next
  case (Suc n)
  obtain q where p: "p = u # q" using Suc.prems(1,2) by (cases p) auto
  show ?case
  proof (cases "u = t")
    case True
    have "q = []"
    proof (rule ccontr)
      assume "q \<noteq> []"
      then have "last q = u" "last q \<in> set q" using Suc.prems(3) True p by auto
      then show False using Suc.prems(4) p by auto
    qed
    then show ?thesis using True p by simp
  next
    case False
    then have qne: "q \<noteq> []" using Suc.prems(3) p by auto
    then obtain v q' where q: "q = v # q'" by (cases q) auto
    have "q \<in> set (paths_from n g (u # vis) v t)"
    proof (rule Suc.IH)
      show "q \<noteq> []" by (rule qne)
      show "hd q = v" by (simp add: q)
      show "last q = t" using Suc.prems(3) p qne by simp
      show "distinct q" using Suc.prems(4) p by simp
      show "set (tl q) \<inter> set (u # vis) = {}"
        using Suc.prems(4,5) p q by auto
      show "set (tl q) \<subseteq> set (g_nodes g)" using Suc.prems(6) p q by auto
      show "walk_ok g q" using Suc.prems(7) p walk_ok_Cons [OF qne] by simp
      show "length q \<le> Suc n" using Suc.prems(8) p by simp
    qed
    moreover have "v \<in> set (g_nodes g)" using Suc.prems(6) p q by simp
    moreover have "v \<notin> set (u # vis)" using Suc.prems(4,5) p q by auto
    moreover have "g_adj g (u, v) \<noteq> None"
      using Suc.prems(7) p q walk_ok_Cons [OF qne, of g u] by simp
    ultimately show ?thesis
      unfolding paths_from_step [OF False] p by blast
  qed
qed

lemma paths_from_distinct: "distinct (paths_from n g vis u t)"
proof (induction n arbitrary: vis u)
  case 0
  then show ?case by simp
next
  case (Suc n)
  show ?case
  proof (cases "u = t")
    case True
    then show ?thesis by simp
  next
    case False
    let ?vs = "filter (\<lambda>v. v \<notin> set (u # vis) \<and> g_adj g (u, v) \<noteq> None) (remdups (g_nodes g))"
    let ?f = "\<lambda>v. map ((#) u) (paths_from n g (u # vis) v t)"
    have "distinct (concat (map ?f ?vs))"
    proof (rule distinct_concat_map)
      show "distinct ?vs" by simp
      show "distinct (?f v)" for v by (simp add: distinct_map Suc.IH)
      show "set (?f v) \<inter> set (?f w) = {}" if "v \<noteq> w" for v w
      proof (rule ccontr)
        assume "set (?f v) \<inter> set (?f w) \<noteq> {}"
        then obtain p where "p \<in> set (?f v)" "p \<in> set (?f w)" by blast
        then obtain q where "q \<in> set (paths_from n g (u # vis) v t)"
          "q \<in> set (paths_from n g (u # vis) w t)" by auto
        then have "hd q = v" "hd q = w" using paths_from_sound by blast+
        then show False using that by simp
      qed
    qed
    then show ?thesis using False by simp
  qed
qed

lemma all_simple_paths_iff:
  "p \<in> set (all_simple_paths g s t) \<longleftrightarrow> is_simple_path g s t p"
proof
  assume mem: "p \<in> set (all_simple_paths g s t)"
  then have st: "s \<in> set (g_nodes g)" "t \<in> set (g_nodes g)"
    and pf: "p \<in> set (paths_from (length (g_nodes g)) g [] s t)"
    by (simp_all add: all_simple_paths_def split: if_splits)
  have snd: "p \<noteq> []" "hd p = s" "last p = t" "distinct p" "set (tl p) \<subseteq> set (g_nodes g)"
    "walk_ok g p"
    using paths_from_sound [OF pf] by simp_all
  have "set p = insert s (set (tl p))" using snd(1,2) by (cases p) auto
  then have "set p \<subseteq> set (g_nodes g)" using st(1) snd(5) by simp
  then show "is_simple_path g s t p"
    using snd by (simp add: is_simple_path_def walk_ok_def)
next
  assume sp: "is_simple_path g s t p"
  then have p: "p \<noteq> []" "hd p = s" "last p = t" "distinct p" "set p \<subseteq> set (g_nodes g)"
    "walk_ok g p"
    by (simp_all add: is_simple_path_def walk_ok_def)
  have st: "s \<in> set (g_nodes g)" "t \<in> set (g_nodes g)"
    using p(1,2,3,5) hd_in_set [of p] last_in_set [of p] by auto
  have "length p = card (set p)" using p(4) by (simp add: distinct_card)
  also have "\<dots> \<le> card (set (g_nodes g))" using p(5) by (simp add: card_mono)
  also have "\<dots> \<le> length (g_nodes g)" by (rule card_length)
  finally have len: "length p \<le> Suc (length (g_nodes g))" by simp
  have "set (tl p) \<subseteq> set (g_nodes g)"
    using p(1,5) by (cases p) auto
  then have "p \<in> set (paths_from (length (g_nodes g)) g [] s t)"
    using p len by (intro paths_from_complete) simp_all
  then show "p \<in> set (all_simple_paths g s t)"
    using st by (simp add: all_simple_paths_def)
qed

lemma all_simple_paths_distinct: "distinct (all_simple_paths g s t)"
  by (simp add: all_simple_paths_def paths_from_distinct)

lemma ranked_set:
  "set (sort_key (path_weight g) (all_simple_paths g s t)) = {p. is_simple_path g s t p}"
  by (auto simp: all_simple_paths_iff)

lemma ranked_distinct: "distinct (sort_key (path_weight g) (all_simple_paths g s t))"
  by (simp add: all_simple_paths_distinct)

lemma ranked_sorted:
  "sorted (map (path_weight g) (sort_key (path_weight g) (all_simple_paths g s t)))"
  by simp

lemma shortest_simple_paths_cases:
  "shortest_simple_paths g s t =
     (if s \<notin> set (g_nodes g) \<or> t \<notin> set (g_nodes g) then Inl NodeNotFound
      else if {p. is_simple_path g s t p} = {} then Inl NetworkXNoPath
      else Inr (sort_key (path_weight g) (all_simple_paths g s t)))"
proof -
  have "sort_key (path_weight g) (all_simple_paths g s t) = [] \<longleftrightarrow>
      {p. is_simple_path g s t p} = {}"
    using ranked_set [of g s t] by (metis set_empty)
  then show ?thesis by (simp add: shortest_simple_paths_def Let_def)
qed

lemma sorted_take_drop:
  assumes "sorted (map f xs)" "p \<in> set (take n xs)" "q \<in> set xs" "q \<notin> set (take n xs)"
  shows "f p \<le> f q"
proof -
  have "q \<in> set (drop n xs)"
    using assms(3,4) append_take_drop_id [of n xs] by (metis Un_iff set_append)
  moreover have "sorted (map f (take n xs) @ map f (drop n xs))"
    using assms(1) by (simp flip: map_append)
  ultimately show ?thesis
    using assms(2) by (auto simp: sorted_append)
qed

lemma take_ranked:
  fixes g :: graph and k :: int and start goal :: coord
  defines "ps \<equiv> take (nat k) (sort_key (path_weight g) (all_simple_paths g start goal))"
  shows "length ps = min (nat k) (card {p. is_simple_path g start goal p})
           \<and> distinct ps
           \<and> (\<forall>p \<in> set ps. is_simple_path g start goal p)
           \<and> sorted (map (path_weight g) ps)
           \<and> (\<forall>p \<in> set ps. \<forall>q. is_simple_path g start goal q \<and> q \<notin> set ps
                 \<longrightarrow> path_weight g p \<le> path_weight g q)"
proof -
  let ?all = "sort_key (path_weight g) (all_simple_paths g start goal)"
  have "card {p. is_simple_path g start goal p} = length ?all"
    using distinct_card [OF ranked_distinct, of g start goal]
    by (simp only: ranked_set)
  then have len: "length ps = min (nat k) (card {p. is_simple_path g start goal p})"
    by (simp add: ps_def min.commute)
  have dist: "distinct ps"
    unfolding ps_def by (rule distinct_take [OF ranked_distinct])
  have simple: "is_simple_path g start goal p" if "p \<in> set ps" for p
    using in_set_takeD [OF that [unfolded ps_def]] ranked_set [of g start goal] by blast
  have srt: "sorted (map (path_weight g) ps)"
    using sorted_wrt_take [OF ranked_sorted [of g start goal, unfolded sorted_map]]
    by (simp add: sorted_map ps_def)
  have rest: "path_weight g p \<le> path_weight g q"
    if "p \<in> set ps" "is_simple_path g start goal q" "q \<notin> set ps" for p q
  proof -
    have "q \<in> set ?all" using that(2) ranked_set [of g start goal] by blast
    then show ?thesis
      using sorted_take_drop [OF ranked_sorted, of p "nat k" g start goal q] that(1,3)
      by (simp add: ps_def)
  qed
  show ?thesis
    using len dist simple srt rest by blast
qed

text \<open>
  C4, as the code has it. A \<open>k\<close> below 0 or above \<^verbatim>\<open>sys.maxsize\<close> makes \<^verbatim>\<open>islice\<close> raise
  \<^verbatim>\<open>ValueError\<close>, and for \<open>k = 0\<close> the empty list is returned without a search. For every
  other \<open>k\<close> the search runs: it raises \<^verbatim>\<open>NodeNotFound\<close> when the start or the goal is not
  a node of the graph and \<^verbatim>\<open>NetworkXNoPath\<close> when no simple path joins them; otherwise
  \<^verbatim>\<open>k_shortest_paths\<close> returns a list of distinct simple paths from the start to the goal,
  in ascending order of total edge weight, none heavier than a simple path that is left
  out; the list has \<open>k\<close> paths, or all simple paths if there are fewer than \<open>k\<close>.
\<close>

theorem k_shortest_paths_contract:
  "(k < 0 \<or> sys_maxsize < k \<longrightarrow> k_shortest_paths g start goal k = Inl ValueError)
   \<and> (k = 0 \<longrightarrow> k_shortest_paths g start goal k = Inr [])
   \<and> (0 < k \<and> k \<le> sys_maxsize \<longrightarrow>
        (if start \<notin> set (g_nodes g) \<or> goal \<notin> set (g_nodes g)
         then k_shortest_paths g start goal k = Inl NodeNotFound
         else if {p. is_simple_path g start goal p} = {}
         then k_shortest_paths g start goal k = Inl NetworkXNoPath
         else \<exists>ps. k_shortest_paths g start goal k = Inr ps
           \<and> length ps = min (nat k) (card {p. is_simple_path g start goal p})
           \<and> distinct ps
           \<and> (\<forall>p \<in> set ps. is_simple_path g start goal p)
           \<and> sorted (map (path_weight g) ps)
           \<and> (\<forall>p \<in> set ps. \<forall>q. is_simple_path g start goal q \<and> q \<notin> set ps
                 \<longrightarrow> path_weight g p \<le> path_weight g q)))"
proof (intro conjI impI)
  assume "k < 0 \<or> sys_maxsize < k"
  then show "k_shortest_paths g start goal k = Inl ValueError"
    by (simp add: k_shortest_paths_def islice_def)
next
  assume "k = 0"
  then show "k_shortest_paths g start goal k = Inr []"
    by (simp add: k_shortest_paths_def islice_def sys_maxsize_def)
next
  assume k: "0 < k \<and> k \<le> sys_maxsize"
  let ?ps = "take (nat k) (sort_key (path_weight g) (all_simple_paths g start goal))"
  have run: "k_shortest_paths g start goal k =
      (case shortest_simple_paths g start goal of Inl e \<Rightarrow> Inl e
       | Inr xs \<Rightarrow> Inr (take (nat k) xs))"
    using k by (simp add: k_shortest_paths_def islice_def)
  have found: "k_shortest_paths g start goal k = Inr ?ps"
    if "\<not> (start \<notin> set (g_nodes g) \<or> goal \<notin> set (g_nodes g))"
      "{p. is_simple_path g start goal p} \<noteq> {}"
    unfolding run shortest_simple_paths_cases using that by simp
  show "if start \<notin> set (g_nodes g) \<or> goal \<notin> set (g_nodes g)
         then k_shortest_paths g start goal k = Inl NodeNotFound
         else if {p. is_simple_path g start goal p} = {}
         then k_shortest_paths g start goal k = Inl NetworkXNoPath
         else \<exists>ps. k_shortest_paths g start goal k = Inr ps
           \<and> length ps = min (nat k) (card {p. is_simple_path g start goal p})
           \<and> distinct ps
           \<and> (\<forall>p \<in> set ps. is_simple_path g start goal p)
           \<and> sorted (map (path_weight g) ps)
           \<and> (\<forall>p \<in> set ps. \<forall>q. is_simple_path g start goal q \<and> q \<notin> set ps
                 \<longrightarrow> path_weight g p \<le> path_weight g q)"
  proof (cases "start \<notin> set (g_nodes g) \<or> goal \<notin> set (g_nodes g)")
    case True
    then show ?thesis unfolding run shortest_simple_paths_cases by simp
  next
    case nodes: False
    show ?thesis
    proof (cases "{p. is_simple_path g start goal p} = {}")
      case True
      then show ?thesis using nodes unfolding run shortest_simple_paths_cases by simp
    next
      case False
      show ?thesis
        using nodes False found [OF nodes False] take_ranked [of k g start goal]
        by (simp only: if_False) blast
    qed
  qed
qed

text \<open>
  A four-node cycle: between \<open>(0, 0)\<close> and \<open>(5, 5)\<close> there are exactly two simple
  paths, through \<open>(5, 0)\<close> with weight 10 and through \<open>(0, 7)\<close> with weight 14. Asked for
  three paths, the function returns the two, the lighter one first.
\<close>

theorem k_shortest_paths_contract_witness:
  "(0::int) < 3 \<and> 3 \<le> sys_maxsize
   \<and> (0, 0) \<in> set (g_nodes
        (lines_to_graph [((0, 0), (0, 7)), ((0, 7), (5, 5)), ((0, 0), (5, 0)), ((5, 0), (5, 5))]))
   \<and> (5, 5) \<in> set (g_nodes
        (lines_to_graph [((0, 0), (0, 7)), ((0, 7), (5, 5)), ((0, 0), (5, 0)), ((5, 0), (5, 5))]))
   \<and> k_shortest_paths
        (lines_to_graph [((0, 0), (0, 7)), ((0, 7), (5, 5)), ((0, 0), (5, 0)), ((5, 0), (5, 5))])
        (0, 0) (5, 5) 3
      = Inr [[(0, 0), (5, 0), (5, 5)], [(0, 0), (0, 7), (5, 5)]]
   \<and> path_weight
        (lines_to_graph [((0, 0), (0, 7)), ((0, 7), (5, 5)), ((0, 0), (5, 0)), ((5, 0), (5, 5))])
        [(0, 0), (5, 0), (5, 5)] = 10
   \<and> path_weight
        (lines_to_graph [((0, 0), (0, 7)), ((0, 7), (5, 5)), ((0, 0), (5, 0)), ((5, 0), (5, 5))])
        [(0, 0), (0, 7), (5, 5)] = 14
   \<and> card {p. is_simple_path
        (lines_to_graph [((0, 0), (0, 7)), ((0, 7), (5, 5)), ((0, 0), (5, 0)), ((5, 0), (5, 5))])
        (0, 0) (5, 5) p} = 2"
proof -
  let ?g = "lines_to_graph [((0, 0), (0, 7)), ((0, 7), (5, 5)), ((0, 0), (5, 0)), ((5, 0), (5, 5))]"
  have h: "(0::int) < 3 \<and> (3::int) \<le> sys_maxsize"
    by (simp add: sys_maxsize_def)
  have n1: "(0, 0) \<in> set (g_nodes ?g)" by code_simp
  have n2: "(5, 5) \<in> set (g_nodes ?g)" by code_simp
  have val: "k_shortest_paths ?g (0, 0) (5, 5) 3
      = Inr [[(0, 0), (5, 0), (5, 5)], [(0, 0), (0, 7), (5, 5)]]"
    by code_simp
  have ne: "{p. is_simple_path ?g (0, 0) (5, 5) p} \<noteq> {}"
    using k_shortest_paths_contract [of 3 ?g "(0, 0)" "(5, 5)"] h n1 n2 val
    by (auto simp only: if_False simp_thms split: if_splits)
  obtain ps where ps: "k_shortest_paths ?g (0, 0) (5, 5) 3 = Inr ps"
    "length ps = min (nat 3) (card {p. is_simple_path ?g (0, 0) (5, 5) p})"
    using k_shortest_paths_contract [of 3 ?g "(0, 0)" "(5, 5)"] h n1 n2 ne
    by (simp only: simp_thms if_False) blast
  have w1: "path_weight ?g [(0, 0), (5, 0), (5, 5)] = 10" by code_simp
  have w2: "path_weight ?g [(0, 0), (0, 7), (5, 5)] = 14" by code_simp
  have "ps = [[(0, 0), (5, 0), (5, 5)], [(0, 0), (0, 7), (5, 5)]]"
    using ps(1) unfolding val by simp
  then have "length ps = 2" by simp
  then have "card {p. is_simple_path ?g (0, 0) (5, 5) p} = 2"
    using ps(2) by (simp add: min_def split: if_splits)
  then show ?thesis using h n1 n2 val w1 w2 by simp
qed

text \<open>
  The claim does not hold for every integer \<open>k\<close>, nor for every graph: a negative \<open>k\<close>
  makes \<^verbatim>\<open>islice\<close> raise \<^verbatim>\<open>ValueError\<close>, and where no simple path joins the start and the
  goal the search raises instead of returning the empty list of paths.
\<close>

theorem k_shortest_paths_counterexample:
  "k_shortest_paths
     (lines_to_graph [((0, 0), (0, 7)), ((0, 7), (5, 5)), ((0, 0), (5, 0)), ((5, 0), (5, 5))])
     (0, 0) (5, 5) (- 1) = Inl ValueError
   \<and> k_shortest_paths (lines_to_graph [((0, 0), (0, 7)), ((5, 0), (5, 5))])
     (0, 0) (5, 5) 3 = Inl NetworkXNoPath"
proof -
  have "k_shortest_paths
     (lines_to_graph [((0, 0), (0, 7)), ((0, 7), (5, 5)), ((0, 0), (5, 0)), ((5, 0), (5, 5))])
     (0, 0) (5, 5) (- 1) = Inl ValueError"
    by (simp add: k_shortest_paths_def islice_def)
  moreover have "k_shortest_paths (lines_to_graph [((0, 0), (0, 7)), ((5, 0), (5, 5))])
     (0, 0) (5, 5) 3 = Inl NetworkXNoPath"
    by code_simp
  ultimately show ?thesis by simp
qed
section \<open>Time-expanded network: properties\<close>

lemma step_eq: "e = ((u, t), (v, t + 1)) \<longleftrightarrow> is_step t e \<and> t_src e = u \<and> t_dst e = v"
  by (cases e; cases "fst e"; cases "snd e") (auto simp: is_step_def t_src_def t_dst_def)

lemma dg_add_node_nodes: "set (d_nodes (dg_add_node n d)) = insert n (set (d_nodes d))"
  by (auto simp: dg_add_node_def)

lemma dg_add_node_distinct: "distinct (d_nodes d) \<Longrightarrow> distinct (d_nodes (dg_add_node n d))"
  by (simp add: dg_add_node_def)

lemma dg_add_node_edges: "d_edges (dg_add_node n d) = d_edges d"
  by (simp add: dg_add_node_def)

lemma dg_add_edge_nodes:
  "set (d_nodes (dg_add_edge a b c w d)) = insert a (insert b (set (d_nodes d)))"
  by (auto simp: dg_add_edge_def Let_def dg_add_node_nodes)

lemma dg_add_edge_distinct: "distinct (d_nodes d) \<Longrightarrow> distinct (d_nodes (dg_add_edge a b c w d))"
  by (simp add: dg_add_edge_def Let_def dg_add_node_distinct)

lemma dg_add_edge_edges:
  "d_edges (dg_add_edge a b c w d) = (d_edges d)((a, b) \<mapsto> \<lparr>capacity = c, weight = w\<rparr>)"
  by (simp add: dg_add_edge_def Let_def dg_add_node_edges)

subsection \<open>Wait edges\<close>

lemma add_wait_nodes:
  "set (d_nodes (add_wait t n d)) = insert (n, t) (insert (n, t + 1) (set (d_nodes d)))"
  by (auto simp: add_wait_def dg_add_edge_nodes dg_add_node_nodes)

lemma add_wait_distinct: "distinct (d_nodes d) \<Longrightarrow> distinct (d_nodes (add_wait t n d))"
  by (simp add: add_wait_def dg_add_edge_distinct dg_add_node_distinct)

lemma add_wait_edges:
  "d_edges (add_wait t n d) e =
     (if is_step t e \<and> t_src e = n \<and> t_dst e = n then Some \<lparr>capacity = 1, weight = 1\<rparr>
      else d_edges d e)"
  unfolding add_wait_def dg_add_edge_edges dg_add_node_edges
  using step_eq [of e n t n] by (simp only: fun_upd_apply)

lemma fold_add_wait_nodes:
  "set (d_nodes (fold (add_wait t) ns d)) =
     set (d_nodes d) \<union> (\<lambda>n. (n, t)) ` set ns \<union> (\<lambda>n. (n, t + 1)) ` set ns"
  by (induction ns arbitrary: d) (auto simp: add_wait_nodes)

lemma fold_add_wait_distinct:
  "distinct (d_nodes d) \<Longrightarrow> distinct (d_nodes (fold (add_wait t) ns d))"
  by (induction ns arbitrary: d) (simp_all add: add_wait_distinct)

lemma fold_add_wait_edges:
  "d_edges (fold (add_wait t) ns d) e =
     (if is_step t e \<and> t_src e = t_dst e \<and> t_src e \<in> set ns
      then Some \<lparr>capacity = 1, weight = 1\<rparr> else d_edges d e)"
proof (induction ns arbitrary: d)
  case Nil
  then show ?case by simp
next
  case (Cons n ns)
  show ?case
    unfolding fold_Cons comp_def Cons.IH add_wait_edges by auto
qed

subsection \<open>Move edges\<close>

lemma add_move_nodes:
  assumes "(u, t) \<in> set (d_nodes d)" "(u, t + 1) \<in> set (d_nodes d)"
    "(v, t) \<in> set (d_nodes d)" "(v, t + 1) \<in> set (d_nodes d)"
  shows "set (d_nodes (add_move A t (u, v, dat) d)) = set (d_nodes d)"
  using assms by (auto simp: Let_def dg_add_edge_nodes)

lemma add_move_distinct: "distinct (d_nodes d) \<Longrightarrow> distinct (d_nodes (add_move A t e d))"
  by (cases e) (simp add: Let_def dg_add_edge_distinct)

lemma add_move_edges:
  "d_edges (add_move A t (u, v, dat) d) e =
     (if ((u, v) \<in> A \<or> (v, u) \<in> A) \<and> is_step t e \<and>
         (t_src e = u \<and> t_dst e = v \<or> t_src e = v \<and> t_dst e = u)
      then Some \<lparr>capacity = 1, weight = edge_cost dat\<rparr> else d_edges d e)"
proof (cases "(u, v) \<in> A \<or> (v, u) \<in> A")
  case False
  then show ?thesis by simp
next
  case True
  have "d_edges (add_move A t (u, v, dat) d) =
      (d_edges d)(((u, t), (v, t + 1)) \<mapsto> \<lparr>capacity = 1, weight = edge_cost dat\<rparr>,
                  ((v, t), (u, t + 1)) \<mapsto> \<lparr>capacity = 1, weight = edge_cost dat\<rparr>)"
    using True by (simp add: Let_def dg_add_edge_edges)
  then have upd: "d_edges (add_move A t (u, v, dat) d) e =
      (if e = ((v, t), (u, t + 1)) then Some \<lparr>capacity = 1, weight = edge_cost dat\<rparr>
       else if e = ((u, t), (v, t + 1)) then Some \<lparr>capacity = 1, weight = edge_cost dat\<rparr>
       else d_edges d e)"
    by (simp only: fun_upd_apply)
  let ?X = "Some \<lparr>capacity = 1, weight = edge_cost dat\<rparr>"
  show ?thesis
  proof (cases "is_step t e \<and> (t_src e = u \<and> t_dst e = v \<or> t_src e = v \<and> t_dst e = u)")
    case hit: True
    then have "e = ((v, t), (u, t + 1)) \<or> e = ((u, t), (v, t + 1))"
      unfolding step_eq by blast
    then have "d_edges (add_move A t (u, v, dat) d) e = ?X"
      unfolding upd by (cases "e = ((v, t), (u, t + 1))") (simp_all only: if_True if_False simp_thms)
    then show ?thesis using hit True by (simp only: if_True simp_thms)
  next
    case miss: False
    then have ne: "e \<noteq> ((v, t), (u, t + 1))" "e \<noteq> ((u, t), (v, t + 1))"
      unfolding step_eq by blast+
    have "d_edges (add_move A t (u, v, dat) d) e = d_edges d e"
      unfolding upd by (simp only: ne if_False)
    then show ?thesis using miss by (simp only: if_False simp_thms)
  qed
qed

lemma fold_add_move_nodes:
  assumes "\<And>e. e \<in> set es \<Longrightarrow> fst e \<in> ns \<and> fst (snd e) \<in> ns"
    "ns \<times> {t, t + 1} \<subseteq> set (d_nodes d)"
  shows "set (d_nodes (fold (add_move A t) es d)) = set (d_nodes d)"
  using assms
proof (induction es arbitrary: d)
  case Nil
  then show ?case by simp
next
  case (Cons e es)
  obtain u v dat where e: "e = (u, v, dat)" by (cases e)
  have uv: "u \<in> ns" "v \<in> ns" using Cons.prems(1) [of e] by (simp_all add: e)
  have same: "set (d_nodes (add_move A t (u, v, dat) d)) = set (d_nodes d)"
    using uv Cons.prems(2) by (intro add_move_nodes) auto
  have "set (d_nodes (fold (add_move A t) es (add_move A t (u, v, dat) d))) =
      set (d_nodes (add_move A t (u, v, dat) d))"
  proof (rule Cons.IH)
    show "fst e \<in> ns \<and> fst (snd e) \<in> ns" if "e \<in> set es" for e
      using Cons.prems(1) [of e] that by simp
    show "ns \<times> {t, t + 1} \<subseteq> set (d_nodes (add_move A t (u, v, dat) d))"
      unfolding same by (rule Cons.prems(2))
  qed
  then show ?case by (simp only: e fold_Cons comp_apply same)
qed

lemma fold_add_move_distinct:
  "distinct (d_nodes d) \<Longrightarrow> distinct (d_nodes (fold (add_move A t) es d))"
  by (induction es arbitrary: d) (simp_all add: add_move_distinct)

lemma fold_add_move_edges:
  assumes "\<And>u v dat. (u, v, dat) \<in> set es \<Longrightarrow> g_adj g (u, v) = Some dat \<and> g_adj g (v, u) = Some dat"
  shows "d_edges (fold (add_move A t) es d) e =
     (if is_step t e \<and> (\<exists>dat. (t_src e, t_dst e, dat) \<in> set es \<or> (t_dst e, t_src e, dat) \<in> set es)
         \<and> ((t_src e, t_dst e) \<in> A \<or> (t_dst e, t_src e) \<in> A)
      then Some \<lparr>capacity = 1, weight = edge_cost (the (g_adj g (t_src e, t_dst e)))\<rparr>
      else d_edges d e)"
  using assms
proof (induction es arbitrary: d)
  case Nil
  then show ?case by simp
next
  case (Cons x es)
  obtain u v dat where x: "x = (u, v, dat)" by (cases x)
  let ?P = "\<lambda>es. is_step t e \<and> (\<exists>dat. (t_src e, t_dst e, dat) \<in> set es \<or> (t_dst e, t_src e, dat) \<in> set es)
         \<and> ((t_src e, t_dst e) \<in> A \<or> (t_dst e, t_src e) \<in> A)"
  let ?val = "Some \<lparr>capacity = 1, weight = edge_cost (the (g_adj g (t_src e, t_dst e)))\<rparr>"
  have adj: "g_adj g (u, v) = Some dat" "g_adj g (v, u) = Some dat"
    using Cons.prems [of u v dat] by (simp_all add: x)
  have ih: "d_edges (fold (add_move A t) es (add_move A t x d)) e =
      (if ?P es then ?val else d_edges (add_move A t x d) e)"
    using Cons.prems by (intro Cons.IH) simp
  have goal: "d_edges (fold (add_move A t) (x # es) d) e =
      (if ?P es then ?val else d_edges (add_move A t x d) e)"
    using ih by (simp only: fold_Cons comp_apply)
  have mono: "?P (x # es)" if "?P es"
    using that by (simp only: set_simps insert_iff) blast
  show ?case
  proof (cases "?P es")
    case True
    show ?thesis
      unfolding goal using True mono [OF True] by (simp only: if_True simp_thms)
  next
    case False
    let ?hit = "((u, v) \<in> A \<or> (v, u) \<in> A) \<and> is_step t e \<and>
         (t_src e = u \<and> t_dst e = v \<or> t_src e = v \<and> t_dst e = u)"
    show ?thesis
    proof (cases ?hit)
      case True
      then have w: "the (g_adj g (t_src e, t_dst e)) = dat" using adj by auto
      have pxs: "?P (x # es)"
        using True unfolding x by (simp only: set_simps insert_iff) blast
      have e1: "d_edges (add_move A t x d) e = ?val"
        unfolding x add_move_edges w using True by (simp only: if_True simp_thms)
      show ?thesis
        unfolding goal using False pxs e1 by (simp only: if_True if_False simp_thms)
    next
      case nohit: False
      have np: "\<not> ?P (x # es)"
      proof
        assume p: "?P (x # es)"
        then obtain dat' where
          "(t_src e, t_dst e, dat') \<in> set (x # es) \<or> (t_dst e, t_src e, dat') \<in> set (x # es)"
          by blast
        then have "(t_src e, t_dst e, dat') = x \<or> (t_dst e, t_src e, dat') = x"
          using False p by (simp only: set_simps insert_iff) blast
        then have "t_src e = u \<and> t_dst e = v \<or> t_src e = v \<and> t_dst e = u"
          unfolding x by blast
        then show False using nohit p by blast
      qed
      have e1: "d_edges (add_move A t x d) e = d_edges d e"
        unfolding x add_move_edges using nohit by (simp only: if_False simp_thms)
      show ?thesis
        unfolding goal using False np e1 by (simp only: if_False simp_thms)
    qed
  qed
qed

subsection \<open>One time layer\<close>

lemma graph_edges_iff:
  assumes "graph_ok g"
  shows "(\<exists>dat. (u, v, dat) \<in> set (graph_edges g) \<or> (v, u, dat) \<in> set (graph_edges g))
         \<longleftrightarrow> g_adj g (u, v) \<noteq> None"
proof
  assume "\<exists>dat. (u, v, dat) \<in> set (graph_edges g) \<or> (v, u, dat) \<in> set (graph_edges g)"
  then obtain dat where "(u, v, dat) \<in> set (graph_edges g) \<or> (v, u, dat) \<in> set (graph_edges g)"
    by blast
  then have "g_adj g (u, v) = Some dat \<or> g_adj g (v, u) = Some dat"
    using graph_edges_adj by blast
  then show "g_adj g (u, v) \<noteq> None"
    using graph_ok_sym [OF assms, of u v] by auto
next
  assume "g_adj g (u, v) \<noteq> None"
  then obtain dat where "g_adj g (u, v) = Some dat" by blast
  then show "\<exists>dat. (u, v, dat) \<in> set (graph_edges g) \<or> (v, u, dat) \<in> set (graph_edges g)"
    using graph_edges_complete [OF assms] by blast
qed

lemma ten_layer_edges:
  assumes "graph_ok g"
  shows "d_edges (ten_layer g A t ten) e =
     (case ten_edge g A t e of Some x \<Rightarrow> Some x | None \<Rightarrow> d_edges ten e)"
proof -
  have adj: "g_adj g (u, v) = Some dat \<and> g_adj g (v, u) = Some dat"
    if "(u, v, dat) \<in> set (graph_edges g)" for u v dat
    using graph_edges_adj [OF that] graph_ok_sym [OF assms, of u v] by simp
  have cond: "(is_step t e \<and>
       (\<exists>dat. (t_src e, t_dst e, dat) \<in> set (graph_edges g) \<or>
              (t_dst e, t_src e, dat) \<in> set (graph_edges g)) \<and>
       ((t_src e, t_dst e) \<in> A \<or> (t_dst e, t_src e) \<in> A))
      \<longleftrightarrow> (is_step t e \<and> move_ok g A (t_src e) (t_dst e))"
    unfolding graph_edges_iff [OF assms] move_ok_def by blast
  have "d_edges (ten_layer g A t ten) e =
      (if is_step t e \<and> move_ok g A (t_src e) (t_dst e)
       then Some \<lparr>capacity = 1, weight = edge_cost (the (g_adj g (t_src e, t_dst e)))\<rparr>
       else if is_step t e \<and> t_src e = t_dst e \<and> t_src e \<in> set (g_nodes g)
       then Some \<lparr>capacity = 1, weight = 1\<rparr> else d_edges ten e)"
    unfolding ten_layer_def
    by (simp only: fold_add_move_edges [of "graph_edges g" g, OF adj] cond fold_add_wait_edges)
  then show ?thesis
    by (auto simp: ten_edge_def)
qed

lemma ten_edge_time: "ten_edge g A t e = Some x \<Longrightarrow> t_time e = t"
  by (simp add: ten_edge_def is_step_def t_time_def split: if_splits)

lemma ten_layer_nodes:
  assumes "graph_ok g"
  shows "set (d_nodes (ten_layer g A t ten)) =
         set (d_nodes ten) \<union> set (g_nodes g) \<times> {t, t + 1}"
proof -
  let ?w = "fold (add_wait t) (g_nodes g) ten"
  have w: "set (d_nodes ?w) = set (d_nodes ten) \<union> set (g_nodes g) \<times> {t, t + 1}"
    unfolding fold_add_wait_nodes by auto
  have "set (d_nodes (fold (add_move A t) (graph_edges g) ?w)) = set (d_nodes ?w)"
  proof (rule fold_add_move_nodes [where ns = "set (g_nodes g)"])
    fix e assume "e \<in> set (graph_edges g)"
    then show "fst e \<in> set (g_nodes g) \<and> fst (snd e) \<in> set (g_nodes g)"
      unfolding graph_edges_def using edges_from_adj [of e g "g_nodes g"] by simp
  next
    show "set (g_nodes g) \<times> {t, t + 1} \<subseteq> set (d_nodes ?w)"
      unfolding w by blast
  qed
  then show ?thesis unfolding ten_layer_def w .
qed

lemma ten_layer_distinct:
  "distinct (d_nodes ten) \<Longrightarrow> distinct (d_nodes (ten_layer g A t ten))"
  unfolding ten_layer_def by (intro fold_add_move_distinct fold_add_wait_distinct)

subsection \<open>All layers\<close>

lemma fold_ten_layer_edges:
  assumes "graph_ok g"
  shows "d_edges (fold (ten_layer g A) ts ten) e =
     (if t_time e \<in> set ts \<and> ten_edge g A (t_time e) e \<noteq> None
      then ten_edge g A (t_time e) e else d_edges ten e)"
proof (induction ts arbitrary: ten)
  case Nil
  then show ?case by simp
next
  case (Cons t ts)
  have ih: "d_edges (fold (ten_layer g A) (t # ts) ten) e =
     (if t_time e \<in> set ts \<and> ten_edge g A (t_time e) e \<noteq> None
      then ten_edge g A (t_time e) e
      else case ten_edge g A t e of Some x \<Rightarrow> Some x | None \<Rightarrow> d_edges ten e)"
    by (simp only: fold_Cons comp_apply Cons.IH ten_layer_edges [OF assms])
  show ?case
  proof (cases "ten_edge g A t e")
    case None
    have "t_time e = t \<Longrightarrow> ten_edge g A (t_time e) e = None" using None by simp
    then show ?thesis unfolding ih None by auto
  next
    case (Some x)
    then have "t_time e = t" by (rule ten_edge_time)
    then show ?thesis unfolding ih using Some by auto
  qed
qed

lemma fold_ten_layer_nodes:
  assumes "graph_ok g"
  shows "set (d_nodes (fold (ten_layer g A) ts ten)) =
     set (d_nodes ten) \<union> set (g_nodes g) \<times> (set ts \<union> Suc ` set ts)"
proof (induction ts arbitrary: ten)
  case Nil
  then show ?case by simp
next
  case (Cons t ts)
  show ?case
    by (simp only: fold_Cons comp_apply Cons.IH ten_layer_nodes [OF assms]) auto
qed

lemma fold_ten_layer_distinct:
  "distinct (d_nodes ten) \<Longrightarrow> distinct (d_nodes (fold (ten_layer g A) ts ten))"
  by (induction ts arbitrary: ten) (simp_all add: ten_layer_distinct)

lemma fold_terminal_nodes:
  "set (d_nodes (fold (\<lambda>node. dg_add_node (node, h)) ns ten)) =
     set (d_nodes ten) \<union> set ns \<times> {h}"
  by (induction ns arbitrary: ten) (auto simp: dg_add_node_nodes)

lemma fold_terminal_edges:
  "d_edges (fold (\<lambda>node. dg_add_node (node, h)) ns ten) = d_edges ten"
  by (induction ns arbitrary: ten) (simp_all add: dg_add_node_edges)

lemma fold_terminal_distinct:
  "distinct (d_nodes ten) \<Longrightarrow> distinct (d_nodes (fold (\<lambda>node. dg_add_node (node, h)) ns ten))"
  by (induction ns arbitrary: ten) (simp_all add: dg_add_node_distinct)

subsection \<open>The scan of the candidate paths\<close>

lemma Max_insert_max: "finite S \<Longrightarrow> Max (insert (max a (b::nat)) S) = Max (insert a (insert b S))"
  by (cases "S = {}") (simp_all add: max.assoc)

lemma Max_insert_Max:
  assumes "finite S" "finite T"
  shows "Max (insert (Max (insert (a::nat) S)) T) = Max (insert a (S \<union> T))"
proof (cases "T = {}")
  case True
  then show ?thesis by simp
next
  case False
  have "Max (insert (Max (insert a S)) T) = max (Max (insert a S)) (Max T)"
    using assms(2) False by simp
  also have "\<dots> = Max (insert a S \<union> T)"
    using assms False by (intro Max_Un [symmetric]) simp_all
  finally show ?thesis by (simp only: Un_insert_left)
qed

lemma scan_inner:
  "fold (\<lambda>p (allowed_edges, max_len).
           (allowed_edges \<union> set (path_pairs p), max max_len (length p))) ps (al, ml) =
     (al \<union> pairs_of ps, Max (insert ml (length ` set ps)))"
proof (induction ps arbitrary: al ml)
  case Nil
  then show ?case by (simp add: pairs_of_def)
next
  case (Cons p ps)
  show ?case
    by (simp add: Cons.IH pairs_of_def Max_insert_max Un_assoc)
qed

lemma scan_outer:
  "fold (\<lambda>(agent, paths) acc.
            fold (\<lambda>p (allowed_edges, max_len).
                   (allowed_edges \<union> set (path_pairs p), max max_len (length p))) paths acc)
       ppa (al, ml) =
     (al \<union> pairs_of (all_paths ppa), Max (insert ml (length ` set (all_paths ppa))))"
proof (induction ppa arbitrary: al ml)
  case Nil
  then show ?case by (simp add: pairs_of_def all_paths_def)
next
  case (Cons x ppa)
  obtain a ps where x: "x = (a, ps)" by (cases x)
  have m: "Max (insert (Max (insert ml (length ` set ps))) (length ` set (all_paths ppa))) =
      Max (insert ml (length ` set (ps @ all_paths ppa)))"
    using Max_insert_Max [of "length ` set ps" "length ` set (all_paths ppa)" ml]
    by (simp add: image_Un)
  have u: "al \<union> pairs_of ps \<union> pairs_of (all_paths ppa) = al \<union> pairs_of (ps @ all_paths ppa)"
    by (auto simp: pairs_of_def)
  have ap: "all_paths (x # ppa) = ps @ all_paths ppa"
    by (simp add: all_paths_def x)
  show ?case
    unfolding ap by (simp add: x scan_inner Cons.IH m u)
qed

lemma scan_paths_eq:
  "scan_paths ppa = (pairs_of (all_paths ppa), longest (all_paths ppa))"
  unfolding scan_paths_def longest_def using scan_outer [of ppa "{}" 0] by simp

lemma allowed_iff:
  "allowed ppa u v \<longleftrightarrow> (u, v) \<in> pairs_of (all_paths ppa) \<or> (v, u) \<in> pairs_of (all_paths ppa)"
  by (auto simp: allowed_def pairs_of_def list_ex_iff)

lemma path_pairs_distinct:
  assumes "distinct p" "(a, b) \<in> set (path_pairs p)"
  shows "a \<noteq> b"
proof -
  obtain i where i: "butlast p ! i = a" "tl p ! i = b" "i < length (butlast p)" "i < length (tl p)"
    using assms(2) unfolding path_pairs_def in_set_zip by auto
  have "a = p ! i" using i(1,3) by (simp add: nth_butlast)
  moreover have "b = p ! Suc i" using i(2,4) by (simp add: nth_tl)
  moreover have "Suc i < length p" using i(4) by simp
  ultimately show ?thesis
    using assms(1) by (simp add: nth_eq_iff_index_eq)
qed

lemma pairs_of_irrefl:
  assumes "list_all distinct ps"
  shows "(u, u) \<notin> pairs_of ps"
  using assms path_pairs_distinct unfolding pairs_of_def list_all_iff by blast

subsection \<open>The network as a whole\<close>

lemma build_ten_eq:
  "build_ten g ppa =
     (fold (\<lambda>node. dg_add_node (node, longest (all_paths ppa))) (g_nodes g)
        (fold (ten_layer g (pairs_of (all_paths ppa))) [0..<longest (all_paths ppa)] empty_digraph),
      longest (all_paths ppa))"
  by (simp add: build_ten_def scan_paths_eq Let_def)

lemma ten_edge_spec:
  assumes "(t_src e, t_src e) \<notin> pairs_of (all_paths ppa)"
  shows "(if t_time e < h \<and> ten_edge g (pairs_of (all_paths ppa)) (t_time e) e \<noteq> None
          then ten_edge g (pairs_of (all_paths ppa)) (t_time e) e else None)
         = spec_ten_edge g ppa h e"
proof -
  obtain u t v t' where e: "e = ((u, t), (v, t'))" by (cases e) auto
  have nm: "\<not> move_ok g (pairs_of (all_paths ppa)) u u"
    using assms by (simp add: move_ok_def e t_src_def)
  show ?thesis
    using nm unfolding e
    by (auto simp: ten_edge_def is_step_def t_src_def t_dst_def t_time_def move_ok_def
        allowed_iff)
qed

lemma build_ten_nodes:
  assumes "graph_ok g"
  shows "set (d_nodes (fst (build_ten g ppa))) = set (g_nodes g) \<times> {0..snd (build_ten g ppa)}"
proof -
  let ?h = "longest (all_paths ppa)"
  have "set [0..<?h] \<union> Suc ` set [0..<?h] \<union> {?h} = {0..?h}"
  proof (intro equalityI subsetI)
    fix x assume "x \<in> set [0..<?h] \<union> Suc ` set [0..<?h] \<union> {?h}"
    then show "x \<in> {0..?h}" by auto
  next
    fix x assume "x \<in> {0..?h}"
    then have "x < ?h \<or> x = ?h" by auto
    then show "x \<in> set [0..<?h] \<union> Suc ` set [0..<?h] \<union> {?h}" by auto
  qed
  then have "set (g_nodes g) \<times> (set [0..<?h] \<union> Suc ` set [0..<?h]) \<union> set (g_nodes g) \<times> {?h}
      = set (g_nodes g) \<times> {0..?h}"
    by blast
  then show ?thesis
    unfolding build_ten_eq fst_conv snd_conv fold_terminal_nodes
      fold_ten_layer_nodes [OF assms]
    by (simp add: empty_digraph_def)
qed

lemma build_ten_distinct: "distinct (d_nodes (fst (build_ten g ppa)))"
  unfolding build_ten_eq fst_conv
  by (intro fold_terminal_distinct fold_ten_layer_distinct) (simp add: empty_digraph_def)

lemma build_ten_edges:
  assumes "graph_ok g" "list_all distinct (all_paths ppa)"
  shows "d_edges (fst (build_ten g ppa)) e = spec_ten_edge g ppa (snd (build_ten g ppa)) e"
proof -
  let ?h = "longest (all_paths ppa)" and ?A = "pairs_of (all_paths ppa)"
  have "d_edges (fst (build_ten g ppa)) e =
      (if t_time e < ?h \<and> ten_edge g ?A (t_time e) e \<noteq> None
       then ten_edge g ?A (t_time e) e else None)"
    unfolding build_ten_eq fst_conv fold_terminal_edges fold_ten_layer_edges [OF assms(1)]
    by (simp add: empty_digraph_def)
  also have "\<dots> = spec_ten_edge g ppa ?h e"
    by (rule ten_edge_spec) (rule pairs_of_irrefl [OF assms(2)])
  finally show ?thesis
    unfolding build_ten_eq snd_conv .
qed

text \<open>
  C5. For a base graph and candidate paths that are simple, \<^verbatim>\<open>build_ten\<close> returns as
  horizon \<open>H\<close> the number of coordinates of the longest candidate path (0 if there is
  none). The nodes of the network are the pairs \<open>(coord, t)\<close> of a base coordinate and a
  time step \<open>0 \<le> t \<le> H\<close>, each once. Its edges are exactly those of the specification:
  for \<open>t < H\<close> the wait edge \<open>(coord, t) \<rightarrow> (coord, t + 1)\<close> of capacity 1 and weight 1
  for every base coordinate, and the move edges \<open>(u, t) \<rightarrow> (v, t + 1)\<close> of capacity 1 and
  the base weight for every base edge \<open>{u, v}\<close> that occurs in either direction in a
  candidate path; the nodes \<open>(coord, H)\<close> have no outgoing edge.
\<close>

theorem build_ten_contract:
  assumes "graph_ok g" "list_all distinct (all_paths paths_per_agent)"
  shows "snd (build_ten g paths_per_agent) = longest (all_paths paths_per_agent)
       \<and> set (d_nodes (fst (build_ten g paths_per_agent)))
           = set (g_nodes g) \<times> {0..snd (build_ten g paths_per_agent)}
       \<and> distinct (d_nodes (fst (build_ten g paths_per_agent)))
       \<and> d_edges (fst (build_ten g paths_per_agent)) e
           = spec_ten_edge g paths_per_agent (snd (build_ten g paths_per_agent)) e
       \<and> d_edges (fst (build_ten g paths_per_agent))
           ((c, snd (build_ten g paths_per_agent)), b) = None"
proof -
  obtain v t' where b: "b = (v, t')" by (cases b)
  have "d_edges (fst (build_ten g paths_per_agent))
           ((c, snd (build_ten g paths_per_agent)), b) = None"
    unfolding build_ten_edges [OF assms] b by simp
  moreover have "snd (build_ten g paths_per_agent) = longest (all_paths paths_per_agent)"
    by (simp add: build_ten_eq)
  ultimately show ?thesis
    using build_ten_nodes [OF assms(1)] build_ten_distinct build_ten_edges [OF assms]
    by blast
qed

theorem build_ten_contract_witness:
  "graph_ok (lines_to_graph [((0, 0), (40, 0)), ((40, 0), (80, 0))])
   \<and> list_all distinct (all_paths [(''A'', [[(0, 0), (40, 0), (80, 0)]])])
   \<and> snd (build_ten (lines_to_graph [((0, 0), (40, 0)), ((40, 0), (80, 0))])
         [(''A'', [[(0, 0), (40, 0), (80, 0)]])]) = 3
   \<and> d_edges (fst (build_ten (lines_to_graph [((0, 0), (40, 0)), ((40, 0), (80, 0))])
         [(''A'', [[(0, 0), (40, 0), (80, 0)]])])) (((0, 0), 0), ((0, 0), 1))
       = Some \<lparr>capacity = 1, weight = 1\<rparr>
   \<and> d_edges (fst (build_ten (lines_to_graph [((0, 0), (40, 0)), ((40, 0), (80, 0))])
         [(''A'', [[(0, 0), (40, 0), (80, 0)]])])) (((40, 0), 2), ((0, 0), 3))
       = Some \<lparr>capacity = 1, weight = 40\<rparr>
   \<and> d_edges (fst (build_ten (lines_to_graph [((0, 0), (40, 0)), ((40, 0), (80, 0))])
         [(''A'', [[(0, 0), (40, 0), (80, 0)]])])) (((0, 0), 1), ((80, 0), 2)) = None
   \<and> d_edges (fst (build_ten (lines_to_graph [((0, 0), (40, 0)), ((40, 0), (80, 0))])
         [(''A'', [[(0, 0), (40, 0), (80, 0)]])])) (((0, 0), 3), ((0, 0), 4)) = None"
proof -
  let ?g = "lines_to_graph [((0, 0), (40, 0)), ((40, 0), (80, 0))]"
  let ?p = "[(''A'', [[(0, 0), (40, 0), (80, 0)]])] :: (string \<times> path list) list"
  have ok: "graph_ok ?g" by (rule lines_to_graph_ok)
  have simple: "list_all distinct (all_paths ?p)" by (simp add: all_paths_def)
  have h: "snd (build_ten ?g ?p) = 3"
    using build_ten_contract [OF ok simple] by (simp add: longest_def all_paths_def)
  have e: "d_edges (fst (build_ten ?g ?p)) x = spec_ten_edge ?g ?p 3 x" for x
    using build_ten_contract [OF ok simple, of x] unfolding h by blast
  have al: "allowed ?p (40, 0) (0, 0)"
    by (simp add: allowed_def all_paths_def path_pairs_def)
  have nal: "\<not> allowed ?p (0, 0) (80, 0)"
    by (simp add: allowed_def all_paths_def path_pairs_def)
  show ?thesis
    using ok simple h al nal
    by (simp add: e lines_to_graph_adj lines_to_graph_nodes edge_cost_def)
qed

section \<open>Planner: properties\<close>

subsection \<open>No agents\<close>

lemma cbm_iter_no_agents:
  "cbm_iter network_simplex g [] k cs =
     Inl (case network_simplex (zero_demand (remove_forbidden cs (fst (build_ten g [])))) of
            Inl e \<Rightarrow> e | Inr fl \<Rightarrow> ValueError)"
  by (simp add: cbm_iter_def solve_mcf_def extract_paths_def detect_conflict_def
      split: prod.splits sum.splits)

lemma cbm_solve_no_agents:
  "cbm_solve network_simplex g [] k =
     Some (Inl (case network_simplex (zero_demand (fst (build_ten g []))) of
                  Inl e \<Rightarrow> e | Inr fl \<Rightarrow> ValueError))"
  unfolding cbm_solve_def
  by (subst cbm_loop.simps)
    (simp add: cbm_iter_no_agents init_constraints_def remove_forbidden_def)

lemma plan_agents_none:
  assumes "list_all (\<lambda>(name, spec). entry_start spec = None \<or> entry_goal spec = None) entries"
  shows "plan_agents entries = []"
  using assms
  by (induction entries) (auto simp: plan_agents_def List.map_filter_simps split: option.splits)

subsection \<open>Conflicts name two agents\<close>




subsection \<open>Dictionaries\<close>






subsection \<open>One pass of the loop\<close>















text \<open>
  C10. With no agents the planner fails: the candidate and demand loops do nothing, and
  either the solver raises or it returns a flow, from which no path is extracted, and
  conflict detection raises \<^verbatim>\<open>ValueError\<close> on the maximum of an empty sequence. The
  empty path mapping is never returned. The plan command calls the planner with no
  agents when no agent of the map has both a start and a goal.
\<close>

theorem cbm_solve_without_agents:
  "detect_conflict [] = Inl ValueError
   \<and> cbm_solve network_simplex g [] k =
       Some (Inl (case network_simplex (zero_demand (fst (build_ten g []))) of
                    Inl e \<Rightarrow> e | Inr fl \<Rightarrow> ValueError))
   \<and> cbm_solve network_simplex g [] k \<noteq> Some (Inr [])
   \<and> (list_all (\<lambda>(name, spec). entry_start spec = None \<or> entry_goal spec = None) (agents data)
        \<longrightarrow> plan_agents (agents data) = []
          \<and> plan network_simplex data k =
              Some (Inl (case network_simplex
                           (zero_demand (fst (build_ten (lines_to_graph (lines data)) []))) of
                         Inl e \<Rightarrow> e | Inr fl \<Rightarrow> ValueError)))"
  using plan_agents_none [of "agents data"]
  by (simp add: cbm_solve_no_agents plan_def detect_conflict_def)

theorem cbm_solve_without_agents_witness:
  "list_all (\<lambda>(name, spec). entry_start spec = None \<or> entry_goal spec = None)
     (agents \<lparr>layers = JList [], lines = [((0, 0), (40, 0))], line_meta = [], nodes = [],
        node_meta = [], obstacles = [], obstacle_meta = [],
        agents = [(''A'', \<lparr>entry_start = Some (0, 0), entry_goal = None\<rparr>)]\<rparr>)
   \<and> plan (\<lambda>d. Inr (map (\<lambda>n. (n, [])) (d_nodes d)))
       \<lparr>layers = JList [], lines = [((0, 0), (40, 0))], line_meta = [], nodes = [],
        node_meta = [], obstacles = [], obstacle_meta = [],
        agents = [(''A'', \<lparr>entry_start = Some (0, 0), entry_goal = None\<rparr>)]\<rparr> 3
     = Some (Inl ValueError)"
proof -
  let ?d = "\<lparr>layers = JList [], lines = [((0, 0), (40, 0))], line_meta = [], nodes = [],
        node_meta = [], obstacles = [], obstacle_meta = [],
        agents = [(''A'', \<lparr>entry_start = Some (0, 0), entry_goal = None\<rparr>)]\<rparr>"
  have h: "list_all (\<lambda>(name, spec). entry_start spec = None \<or> entry_goal spec = None) (agents ?d)"
    by simp
  show ?thesis
    using cbm_solve_without_agents
      [where data = ?d and network_simplex = "\<lambda>d. Inr (map (\<lambda>n. (n, [])) (d_nodes d))" and k = 3] h
    by simp
qed

section \<open>Map files: properties\<close>

subsection \<open>Shapes and conversions\<close>

lemma is_coord_conv: "is_coord j \<Longrightarrow> \<exists>c. as_coord j = Inr c \<and> coord_json c = j"
  by (induction j rule: is_coord.induct) (simp_all add: coord_json_def)

lemma is_points_conv: "is_points j \<Longrightarrow> \<exists>l. as_line j = Inr l \<and> line_json l = j"
proof (induction j rule: is_points.induct)
  case (1 p1 p2)
  then obtain c1 c2 where "as_coord p1 = Inr c1" "coord_json c1 = p1"
    "as_coord p2 = Inr c2" "coord_json c2 = p2"
    using is_coord_conv [of p1] is_coord_conv [of p2] by auto
  then show ?case by simp
qed simp_all

lemma is_rect_conv: "is_rect j \<Longrightarrow> \<exists>r. as_rect j = Inr r \<and> rect_json r = j"
  by (induction j rule: is_rect.induct) simp_all

lemma is_coord_not_dict: "is_coord j \<Longrightarrow> \<not> is_dict j"
  by (cases j) simp_all

lemma is_points_not_dict: "is_points j \<Longrightarrow> \<not> is_dict j"
  by (cases j) simp_all

lemma is_rect_not_dict: "is_rect j \<Longrightarrow> \<not> is_dict j"
  by (cases j) simp_all

subsection \<open>Loops that collect\<close>

lemma collect_rel:
  assumes "\<And>x. x \<in> set xs \<Longrightarrow> \<exists>y. f x = Inr y \<and> R x y"
  shows "\<exists>ys. collect f xs = Inr ys \<and> list_all2 R xs ys"
  using assms
proof (induction xs)
  case Nil
  then show ?case by simp
next
  case (Cons x xs)
  obtain y where y: "f x = Inr y" "R x y" using Cons.prems [of x] by auto
  obtain ys where ys: "collect f xs = Inr ys" "list_all2 R xs ys"
    using Cons.IH Cons.prems by auto
  show ?case using y ys by simp
qed

lemma zip_fst_snd: "zip (map fst ps) (map snd ps) = ps"
  by (induction ps) auto

lemma list_all2_map_eq:
  "list_all2 (\<lambda>x z. f z = g x) xs zs \<Longrightarrow> map f zs = map g xs"
  by (induction xs zs rule: list_all2_induct) simp_all

subsection \<open>Items that are dictionaries\<close>

lemma get_or_present: "map_of kvs k = Some v \<Longrightarrow> get_or kvs k d = v"
  by (simp add: get_or_def)

lemma load_entry_canonical:
  assumes conv: "\<And>j. shape j \<Longrightarrow> \<exists>g. conv j = Inr g \<and> to_json g = j"
    and key: "key \<noteq> ''id''" "key \<noteq> ''layer''" "key \<noteq> ''attributes''" "key \<noteq> ''style''"
    and item: "canonical_item shape key x"
  shows "\<exists>z. load_entry conv key dflt x = Inr z \<and>
             item_view key (combine_entry to_json key z) = item_view key x"
proof -
  obtain kvs where x: "x = JObj kvs" using item by (cases x) simp_all
  obtain geom where geom: "map_of kvs key = Some geom" "shape geom"
    using item unfolding x by (auto split: option.splits)
  obtain i l a st where meta: "map_of kvs ''id'' = Some i" "map_of kvs ''layer'' = Some l"
    "map_of kvs ''attributes'' = Some a" "map_of kvs ''style'' = Some st"
    using item unfolding x by auto
  obtain g where g: "conv geom = Inr g" "to_json g = geom" using conv [OF geom(2)] by blast
  have load: "load_entry conv key dflt x = Inr (g, entry_meta kvs)"
    unfolding x using g(1) geom(1) by (simp add: get_or_present)
  have em: "entry_meta kvs = \<lparr>m_id = i, m_layer = l, m_attributes = a, m_style = st\<rparr>"
    using meta by (simp add: entry_meta_def get_or_present)
  have "item_view key (combine_entry to_json key (g, entry_meta kvs)) = item_view key x"
    unfolding x em using key meta geom(1) g(2)
    by (simp add: item_view_def combine_entry_def)
  then show ?thesis using load by simp
qed

lemma load_collection_canonical:
  assumes conv: "\<And>j. shape j \<Longrightarrow> \<exists>g. conv j = Inr g \<and> to_json g = j"
    and key: "key \<noteq> ''id''" "key \<noteq> ''layer''" "key \<noteq> ''attributes''" "key \<noteq> ''style''"
    and items: "list_all (canonical_item shape key) xs"
  shows "\<exists>zs. load_collection conv key dflt (JList xs) = Inr zs \<and>
          map (item_view key) (map (combine_entry to_json key) zs) = map (item_view key) xs"
proof (cases xs)
  case Nil
  then show ?thesis by simp
next
  case (Cons x xs')
  have "is_dict x" using items unfolding Cons by (cases x) simp_all
  then have lc: "load_collection conv key dflt (JList xs) = collect (load_entry conv key dflt) xs"
    unfolding Cons by simp
  have "\<exists>z. load_entry conv key dflt y = Inr z \<and>
             item_view key (combine_entry to_json key z) = item_view key y" if "y \<in> set xs" for y
    using load_entry_canonical [OF conv key, where x = y and dflt = dflt] that items
    by (simp add: list_all_iff)
  then obtain zs where zs: "collect (load_entry conv key dflt) xs = Inr zs"
    "list_all2 (\<lambda>y z. item_view key (combine_entry to_json key z) = item_view key y) xs zs"
    using collect_rel [of xs "load_entry conv key dflt"
        "\<lambda>y z. item_view key (combine_entry to_json key z) = item_view key y"]
    by blast
  have "map (\<lambda>z. item_view key (combine_entry to_json key z)) zs = map (item_view key) xs"
    using zs(2) by (rule list_all2_map_eq)
  then show ?thesis using lc zs(1) by (simp add: comp_def)
qed

subsection \<open>Bare lists\<close>

lemma collect_bare:
  assumes conv: "\<And>j. shape j \<Longrightarrow> \<exists>g. conv j = Inr g \<and> to_json g = j"
    and items: "list_all shape xs"
  shows "\<exists>zs. collect (load_bare conv) (enumerate n xs) = Inr zs \<and>
          map (\<lambda>z. to_json (fst z)) zs = xs \<and> map snd zs = map default_meta [n..<n + length xs]"
  using items
proof (induction xs arbitrary: n)
  case Nil
  then show ?case by simp
next
  case (Cons x xs)
  obtain g where g: "conv x = Inr g" "to_json g = x" using conv [of x] Cons.prems by auto
  obtain zs where zs: "collect (load_bare conv) (enumerate (Suc n) xs) = Inr zs"
    "map (\<lambda>z. to_json (fst z)) zs = xs" "map snd zs = map default_meta [Suc n..<Suc n + length xs]"
    using Cons.IH [of "Suc n"] Cons.prems by auto
  have "[n..<n + length (x # xs)] = n # [Suc n..<Suc n + length xs]"
    by (subst upt_rec) simp
  then show ?case using g zs by simp
qed

lemma load_collection_bare:
  assumes conv: "\<And>j. shape j \<Longrightarrow> \<exists>g. conv j = Inr g \<and> to_json g = j"
    and nd: "\<And>j. shape j \<Longrightarrow> \<not> is_dict j"
    and items: "list_all shape xs"
  shows "\<exists>zs. load_collection conv key dflt (JList xs) = Inr zs \<and>
          map (\<lambda>z. to_json (fst z)) zs = xs \<and> map snd zs = default_metas (length xs)"
proof (cases xs)
  case Nil
  then show ?thesis by (simp add: default_metas_def)
next
  case (Cons x xs')
  have "\<not> is_dict x" using items nd unfolding Cons by simp
  then have "load_collection conv key dflt (JList xs) = collect (load_bare conv) (enumerate 0 xs)"
    unfolding Cons by simp
  then show ?thesis
    using collect_bare [OF conv items, of 0] by (simp add: default_metas_def)
qed

subsection \<open>Agents\<close>

lemma load_slot_canonical:
  assumes "case map_of kvs k of None \<Rightarrow> True | Some c \<Rightarrow> is_coord c"
  shows "\<exists>s. load_slot kvs k = Inr s \<and> map_option coord_json s = map_of kvs k"
proof (cases "map_of kvs k")
  case None
  then show ?thesis by (simp add: load_slot_def)
next
  case (Some c)
  then obtain c' where "as_coord c = Inr c'" "coord_json c' = c"
    using assms is_coord_conv [of c] by auto
  then show ?thesis using Some by (intro exI [of _ "Some c'"]) (simp add: load_slot_def)
qed

lemma agent_json_view:
  "jget (agent_json \<lparr>entry_start = s, entry_goal = g\<rparr>) ''start'' = map_option coord_json s"
  "jget (agent_json \<lparr>entry_start = s, entry_goal = g\<rparr>) ''goal'' = map_option coord_json g"
  by (cases s; cases g; simp add: agent_json_def)+

lemma load_agent_canonical:
  assumes "canonical_agent x"
  shows "\<exists>z. load_agent x = Inr z \<and>
     (case z of (name, a) \<Rightarrow> (name, jget (agent_json a) ''start'', jget (agent_json a) ''goal''))
     = (case x of (name, v) \<Rightarrow> (name, jget v ''start'', jget v ''goal''))"
proof -
  obtain name v where x: "x = (name, v)" by (cases x)
  obtain kvs where v: "v = JObj kvs" using assms unfolding x by (cases v) simp_all
  obtain s where s: "load_slot kvs ''start'' = Inr s" "map_option coord_json s = map_of kvs ''start''"
    using load_slot_canonical [of kvs "''start''"] assms unfolding x v by auto
  obtain g where g: "load_slot kvs ''goal'' = Inr g" "map_option coord_json g = map_of kvs ''goal''"
    using load_slot_canonical [of kvs "''goal''"] assms unfolding x v by auto
  show ?thesis
    unfolding x v using s g by (simp add: agent_json_view)
qed

lemma load_agents_canonical:
  assumes "list_all canonical_agent kvs"
  shows "\<exists>ags. load_agents (JObj kvs) = Inr ags \<and>
     map (\<lambda>(name, a). (name, jget (agent_json a) ''start'', jget (agent_json a) ''goal'')) ags
     = map (\<lambda>(name, v). (name, jget v ''start'', jget v ''goal'')) kvs"
proof -
  let ?R = "\<lambda>x z. (case z of (name, a) \<Rightarrow> (name, jget (agent_json a) ''start'', jget (agent_json a) ''goal''))
     = (case x of (name, v) \<Rightarrow> (name, jget v ''start'', jget v ''goal''))"
  have "\<exists>z. load_agent x = Inr z \<and> ?R x z" if "x \<in> set kvs" for x
    using load_agent_canonical [of x] that assms by (simp add: list_all_iff)
  then obtain ags where ags: "collect load_agent kvs = Inr ags" "list_all2 ?R kvs ags"
    using collect_rel [of kvs load_agent ?R] by blast
  show ?thesis
    using ags(1) list_all2_map_eq [OF ags(2)] by simp
qed

subsection \<open>Whole files\<close>

lemma load_items_canonical:
  assumes conv: "\<And>j. shape j \<Longrightarrow> \<exists>g. conv j = Inr g \<and> to_json g = j"
    and key: "key \<noteq> ''id''" "key \<noteq> ''layer''" "key \<noteq> ''attributes''" "key \<noteq> ''style''"
    and items: "canonical_items shape key (map_of kvs k)"
  shows "\<exists>zs. load_collection conv key dflt (get_or kvs k (JList [])) = Inr zs \<and>
          map (item_view key) (map (combine_entry to_json key) zs)
          = map (item_view key) (items_of (JObj kvs) k)"
proof (cases "map_of kvs k")
  case None
  then show ?thesis by (simp add: get_or_def items_of_def)
next
  case (Some j)
  then obtain xs where j: "j = JList xs" using items by (cases j) simp_all
  have "list_all (canonical_item shape key) xs" using items Some j by simp
  then show ?thesis
    using load_collection_canonical [OF conv key, where xs = xs and dflt = dflt] Some j
    by (simp add: get_or_def items_of_def)
qed

lemma load_items_bare:
  assumes conv: "\<And>j. shape j \<Longrightarrow> \<exists>g. conv j = Inr g \<and> to_json g = j"
    and nd: "\<And>j. shape j \<Longrightarrow> \<not> is_dict j"
    and items: "bare_items shape (map_of kvs k)"
  shows "\<exists>zs. load_collection conv key dflt (get_or kvs k (JList [])) = Inr zs \<and>
          map (\<lambda>z. to_json (fst z)) zs = items_of (JObj kvs) k \<and>
          map snd zs = default_metas (length (items_of (JObj kvs) k))"
proof (cases "map_of kvs k")
  case None
  then show ?thesis by (simp add: get_or_def items_of_def default_metas_def)
next
  case (Some j)
  then obtain xs where j: "j = JList xs" using items by (cases j) simp_all
  have "list_all shape xs" using items Some j by simp
  then show ?thesis
    using load_collection_bare [OF conv nd, where xs = xs and key = key and dflt = dflt] Some j
    by (simp add: get_or_def items_of_def)
qed

lemma load_agents_view:
  assumes "canonical_agents (map_of kvs ''agents'')"
  shows "\<exists>ags. load_agents (get_or kvs ''agents'' (JObj [])) = Inr ags \<and>
     map (\<lambda>(name, a). (name, jget (agent_json a) ''start'', jget (agent_json a) ''goal'')) ags
     = agents_view (JObj kvs)"
proof (cases "map_of kvs ''agents''")
  case None
  then show ?thesis by (simp add: get_or_def agents_view_def)
next
  case (Some j)
  then obtain avs where j: "j = JObj avs" using assms by (cases j) simp_all
  have "list_all canonical_agent avs" using assms Some j by simp
  then show ?thesis
    using load_agents_canonical [of avs] Some j by (simp add: get_or_def agents_view_def)
qed

lemma load_map_supported: "supported_suffix suffix \<Longrightarrow> load_map suffix file = load_map_data file"
  by (simp add: load_map_def supported_suffix_def)

lemma default_metas_nth:
  "i < n \<Longrightarrow> default_metas n ! i =
     \<lparr>m_id = JInt (int i + 1), m_layer = JStr ''Default'', m_attributes = JObj [],
      m_style = JObj []\<rparr>"
  by (simp add: default_metas_def default_meta_def)

text \<open>
  C7. A map file in canonical per-item form loads, and the file saved from what was
  loaded holds the same layers, the same lines, nodes and obstacles in the same order,
  each with its geometry under the fixed key and with the same id, layer, attributes and
  style, and the same agents with the same start and goal.
\<close>

theorem load_save_round_trip:
  assumes "canonical file" "supported_suffix suffix"
  shows "\<exists>data. load_map suffix file = Inr data
           \<and> file_view (save_map data) = file_view file
           \<and> length (line_meta data) = length (lines data)
           \<and> length (node_meta data) = length (nodes data)
           \<and> length (obstacle_meta data) = length (obstacles data)"
proof -
  obtain kvs where fl: "file = JObj kvs" using assms(1) by (cases "file") simp_all
  have can: "map_of kvs ''layers'' \<noteq> None"
    "canonical_items is_points ''points'' (map_of kvs ''lines'')"
    "canonical_items is_coord ''point'' (map_of kvs ''nodes'')"
    "canonical_items is_rect ''rect'' (map_of kvs ''obstacles'')"
    "canonical_agents (map_of kvs ''agents'')"
    using assms(1) unfolding fl by simp_all
  obtain ly where ly: "map_of kvs ''layers'' = Some ly" using can(1) by blast
  obtain ls where ls:
    "load_collection as_line ''points'' (JList [JList [JInt 0, JInt 0], JList [JInt 0, JInt 0]])
       (get_or kvs ''lines'' (JList [])) = Inr ls"
    "map (item_view ''points'') (map (combine_entry line_json ''points'') ls)
       = map (item_view ''points'') (items_of (JObj kvs) ''lines'')"
    using load_items_canonical [where shape = is_points and conv = as_line and to_json = line_json
        and key = "''points''" and kvs = kvs and k = "''lines''", OF is_points_conv _ _ _ _ can(2)]
    by auto
  obtain ns where ns:
    "load_collection as_coord ''point'' (JList [JInt 0, JInt 0])
       (get_or kvs ''nodes'' (JList [])) = Inr ns"
    "map (item_view ''point'') (map (combine_entry coord_json ''point'') ns)
       = map (item_view ''point'') (items_of (JObj kvs) ''nodes'')"
    using load_items_canonical [where shape = is_coord and conv = as_coord and to_json = coord_json
        and key = "''point''" and kvs = kvs and k = "''nodes''", OF is_coord_conv _ _ _ _ can(3)]
    by auto
  obtain obs where obs:
    "load_collection as_rect ''rect'' (JList [JInt 0, JInt 0, JInt 0, JInt 0])
       (get_or kvs ''obstacles'' (JList [])) = Inr obs"
    "map (item_view ''rect'') (map (combine_entry rect_json ''rect'') obs)
       = map (item_view ''rect'') (items_of (JObj kvs) ''obstacles'')"
    using load_items_canonical [where shape = is_rect and conv = as_rect and to_json = rect_json
        and key = "''rect''" and kvs = kvs and k = "''obstacles''", OF is_rect_conv _ _ _ _ can(4)]
    by auto
  obtain ags where ags: "load_agents (get_or kvs ''agents'' (JObj [])) = Inr ags"
    "map (\<lambda>(name, a). (name, jget (agent_json a) ''start'', jget (agent_json a) ''goal'')) ags
     = agents_view (JObj kvs)"
    using load_agents_view [OF can(5)] by blast
  let ?data = "\<lparr>layers = ly, lines = map fst ls, line_meta = map snd ls,
               nodes = map fst ns, node_meta = map snd ns,
               obstacles = map fst obs, obstacle_meta = map snd obs, agents = ags\<rparr>"
  have load: "load_map suffix file = Inr ?data"
    unfolding load_map_supported [OF assms(2)] fl
    using ls(1) ns(1) obs(1) ags(1) ly by (simp add: get_or_present)
  have av: "agents_view (save_map ?data) = agents_view (JObj kvs)"
    using ags(2) by (simp add: agents_view_def save_map_def comp_def case_prod_unfold)
  have view: "file_view (save_map ?data) = file_view file"
    unfolding fl file_view_def av
    using ls(2) ns(2) obs(2) ly
    by (simp add: save_map_def items_of_def combine_collection_def zip_fst_snd)
  show ?thesis
    using load view by simp
qed

text \<open>
  A file with one line, whose record has the id before the points, and one agent.
\<close>

theorem load_save_round_trip_witness:
  "canonical
     (JObj [(''layers'', JList [JObj [(''name'', JStr ''Default''), (''color'', JStr ''#000000''),
                                      (''visible'', JBool True)]]),
            (''lines'', JList [JObj [(''id'', JInt 7),
                                     (''points'', JList [JList [JInt 0, JInt 0],
                                                         JList [JInt 40, JInt 0]]),
                                     (''layer'', JStr ''Default''),
                                     (''attributes'', JObj [(''kind'', JStr ''aisle'')]),
                                     (''style'', JObj [(''fill'', JStr ''#000000'')])]]),
            (''agents'', JObj [(''A'', JObj [(''goal'', JList [JInt 40, JInt 0]),
                                             (''start'', JList [JInt 0, JInt 0])])])])
   \<and> supported_suffix ''.json''
   \<and> (\<exists>data. load_map ''.json''
     (JObj [(''layers'', JList [JObj [(''name'', JStr ''Default''), (''color'', JStr ''#000000''),
                                      (''visible'', JBool True)]]),
            (''lines'', JList [JObj [(''id'', JInt 7),
                                     (''points'', JList [JList [JInt 0, JInt 0],
                                                         JList [JInt 40, JInt 0]]),
                                     (''layer'', JStr ''Default''),
                                     (''attributes'', JObj [(''kind'', JStr ''aisle'')]),
                                     (''style'', JObj [(''fill'', JStr ''#000000'')])]]),
            (''agents'', JObj [(''A'', JObj [(''goal'', JList [JInt 40, JInt 0]),
                                             (''start'', JList [JInt 0, JInt 0])])])]) = Inr data
     \<and> save_map data =
     JObj [(''layers'', JList [JObj [(''name'', JStr ''Default''), (''color'', JStr ''#000000''),
                                      (''visible'', JBool True)]]),
            (''lines'', JList [JObj [(''points'', JList [JList [JInt 0, JInt 0],
                                                         JList [JInt 40, JInt 0]]),
                                     (''id'', JInt 7),
                                     (''layer'', JStr ''Default''),
                                     (''attributes'', JObj [(''kind'', JStr ''aisle'')]),
                                     (''style'', JObj [(''fill'', JStr ''#000000'')])]]),
            (''nodes'', JList []),
            (''obstacles'', JList []),
            (''agents'', JObj [(''A'', JObj [(''start'', JList [JInt 0, JInt 0]),
                                             (''goal'', JList [JInt 40, JInt 0])])])])"
proof -
  let ?f = "JObj [(''layers'', JList [JObj [(''name'', JStr ''Default''), (''color'', JStr ''#000000''),
                                      (''visible'', JBool True)]]),
            (''lines'', JList [JObj [(''id'', JInt 7),
                                     (''points'', JList [JList [JInt 0, JInt 0],
                                                         JList [JInt 40, JInt 0]]),
                                     (''layer'', JStr ''Default''),
                                     (''attributes'', JObj [(''kind'', JStr ''aisle'')]),
                                     (''style'', JObj [(''fill'', JStr ''#000000'')])]]),
            (''agents'', JObj [(''A'', JObj [(''goal'', JList [JInt 40, JInt 0]),
                                             (''start'', JList [JInt 0, JInt 0])])])]"
  let ?data = "\<lparr>layers = JList [JObj [(''name'', JStr ''Default''), (''color'', JStr ''#000000''),
                                      (''visible'', JBool True)]],
      lines = [((0, 0), (40, 0))],
      line_meta = [\<lparr>m_id = JInt 7, m_layer = JStr ''Default'',
                    m_attributes = JObj [(''kind'', JStr ''aisle'')],
                    m_style = JObj [(''fill'', JStr ''#000000'')]\<rparr>],
      nodes = [], node_meta = [], obstacles = [], obstacle_meta = [],
      agents = [(''A'', \<lparr>entry_start = Some (0, 0), entry_goal = Some (40, 0)\<rparr>)]\<rparr>"
  have c: "canonical ?f" by simp
  have s: "supported_suffix ''.json''" by (simp add: supported_suffix_def)
  obtain data where d: "load_map ''.json'' ?f = Inr data"
    "file_view (save_map data) = file_view ?f"
    using load_save_round_trip [OF c s] by blast
  have "load_map ''.json'' ?f = Inr ?data"
    by (simp add: load_map_def get_or_def entry_meta_def load_slot_def)
  then have "data = ?data" using d(1) by simp
  then have "save_map data = save_map ?data" by simp
  then show ?thesis
    using c s d(1)
    by (simp add: save_map_def combine_collection_def combine_entry_def agent_json_def
        coord_json_def)
qed


text \<open>
  C8. A map file in the legacy form loads: each geometry list is read in order, and the
  metadata made up for the item at index \<open>i\<close> of a list has the id \<open>i + 1\<close>, the layer
  \<open>Default\<close>, and empty attributes and style.
\<close>

theorem load_legacy_metadata:
  assumes "legacy file" "supported_suffix suffix"
  shows "\<exists>data. load_map suffix file = Inr data
           \<and> map line_json (lines data) = items_of file ''lines''
           \<and> map coord_json (nodes data) = items_of file ''nodes''
           \<and> map rect_json (obstacles data) = items_of file ''obstacles''
           \<and> line_meta data = default_metas (length (lines data))
           \<and> node_meta data = default_metas (length (nodes data))
           \<and> obstacle_meta data = default_metas (length (obstacles data))
           \<and> (\<forall>n. \<forall>i < n. default_metas n ! i =
                 \<lparr>m_id = JInt (int i + 1), m_layer = JStr ''Default'', m_attributes = JObj [],
                  m_style = JObj []\<rparr>)"
proof -
  obtain kvs where fl: "file = JObj kvs" using assms(1) by (cases "file") simp_all
  have leg: "bare_items is_points (map_of kvs ''lines'')"
    "bare_items is_coord (map_of kvs ''nodes'')"
    "bare_items is_rect (map_of kvs ''obstacles'')"
    "canonical_agents (map_of kvs ''agents'')"
    using assms(1) unfolding fl by simp_all
  obtain ls where ls:
    "load_collection as_line ''points'' (JList [JList [JInt 0, JInt 0], JList [JInt 0, JInt 0]])
       (get_or kvs ''lines'' (JList [])) = Inr ls"
    "map (\<lambda>z. line_json (fst z)) ls = items_of (JObj kvs) ''lines''"
    "map snd ls = default_metas (length (items_of (JObj kvs) ''lines''))"
    using load_items_bare [where shape = is_points and conv = as_line and to_json = line_json
        and kvs = kvs and k = "''lines''", OF is_points_conv is_points_not_dict leg(1)]
    by blast
  obtain ns where ns:
    "load_collection as_coord ''point'' (JList [JInt 0, JInt 0])
       (get_or kvs ''nodes'' (JList [])) = Inr ns"
    "map (\<lambda>z. coord_json (fst z)) ns = items_of (JObj kvs) ''nodes''"
    "map snd ns = default_metas (length (items_of (JObj kvs) ''nodes''))"
    using load_items_bare [where shape = is_coord and conv = as_coord and to_json = coord_json
        and kvs = kvs and k = "''nodes''", OF is_coord_conv is_coord_not_dict leg(2)]
    by blast
  obtain obs where obs:
    "load_collection as_rect ''rect'' (JList [JInt 0, JInt 0, JInt 0, JInt 0])
       (get_or kvs ''obstacles'' (JList [])) = Inr obs"
    "map (\<lambda>z. rect_json (fst z)) obs = items_of (JObj kvs) ''obstacles''"
    "map snd obs = default_metas (length (items_of (JObj kvs) ''obstacles''))"
    using load_items_bare [where shape = is_rect and conv = as_rect and to_json = rect_json
        and kvs = kvs and k = "''obstacles''", OF is_rect_conv is_rect_not_dict leg(3)]
    by blast
  obtain ags where ags: "load_agents (get_or kvs ''agents'' (JObj [])) = Inr ags"
    using load_agents_view [OF leg(4)] by blast
  let ?data = "\<lparr>layers = get_or kvs ''layers'' default_layers,
               lines = map fst ls, line_meta = map snd ls,
               nodes = map fst ns, node_meta = map snd ns,
               obstacles = map fst obs, obstacle_meta = map snd obs, agents = ags\<rparr>"
  have load: "load_map suffix file = Inr ?data"
    unfolding load_map_supported [OF assms(2)] fl
    using ls(1) ns(1) obs(1) ags by simp
  have len: "length (items_of (JObj kvs) ''lines'') = length ls"
    "length (items_of (JObj kvs) ''nodes'') = length ns"
    "length (items_of (JObj kvs) ''obstacles'') = length obs"
    using ls(2) ns(2) obs(2) by (metis length_map)+
  show ?thesis
    using load ls(2,3) ns(2,3) obs(2,3) unfolding fl len
    by (simp add: comp_def default_metas_nth)
qed

text \<open>
  The file \<^verbatim>\<open>{"lines": [[[0,0],[40,0]]]}\<close> loads as one line with the metadata
  \<^verbatim>\<open>{id: 1, layer: "Default", attributes: {}, style: {}}\<close>.
\<close>

theorem load_legacy_metadata_witness:
  "legacy (JObj [(''lines'', JList [JList [JList [JInt 0, JInt 0], JList [JInt 40, JInt 0]]])])
   \<and> supported_suffix ''.json''
   \<and> load_map ''.json''
        (JObj [(''lines'', JList [JList [JList [JInt 0, JInt 0], JList [JInt 40, JInt 0]]])])
      = Inr \<lparr>layers = default_layers,
             lines = [((0, 0), (40, 0))],
             line_meta = [\<lparr>m_id = JInt 1, m_layer = JStr ''Default'', m_attributes = JObj [],
                           m_style = JObj []\<rparr>],
             nodes = [], node_meta = [], obstacles = [], obstacle_meta = [], agents = []\<rparr>"
proof -
  let ?f = "JObj [(''lines'', JList [JList [JList [JInt 0, JInt 0], JList [JInt 40, JInt 0]]])]"
  have l: "legacy ?f" by simp
  have s: "supported_suffix ''.json''" by (simp add: supported_suffix_def)
  obtain data where d: "load_map ''.json'' ?f = Inr data"
    "map line_json (lines data) = items_of ?f ''lines''"
    "map coord_json (nodes data) = items_of ?f ''nodes''"
    "map rect_json (obstacles data) = items_of ?f ''obstacles''"
    "line_meta data = default_metas (length (lines data))"
    "node_meta data = default_metas (length (nodes data))"
    "obstacle_meta data = default_metas (length (obstacles data))"
    using load_legacy_metadata [OF l s] by blast
  have "load_map ''.json'' ?f = Inr \<lparr>layers = default_layers,
             lines = [((0, 0), (40, 0))],
             line_meta = [\<lparr>m_id = JInt 1, m_layer = JStr ''Default'', m_attributes = JObj [],
                           m_style = JObj []\<rparr>],
             nodes = [], node_meta = [], obstacles = [], obstacle_meta = [], agents = []\<rparr>"
    by (simp add: load_map_def get_or_def default_meta_def)
  then show ?thesis using l s d(1) by simp
qed

end
